theory Spec2Isabelle
  imports Complex_Main
begin

section \<open>The manhole game: data model\<close>

text \<open>
  The program is one module \<^verbatim>\<open>manhole.py\<close>: constants, the global game variables,
  the helpers \<^verbatim>\<open>create_pedestrian\<close> and \<^verbatim>\<open>reset_game\<close>, and the main loop whose body
  is the event handling followed by the game logic of one frame. Drawing reads the
  state and changes nothing, so it is left out, together with \<^verbatim>\<open>player_rect\<close>, which
  is only drawn and whose position is a function of the two player indices.

  Python integers are \<^typ>\<open>int\<close>. The floating-point constants of the module are
  multiples of one half far below \<open>2 ^ 53\<close>, and the products \<^verbatim>\<open>800 * 0.30\<close>,
  \<^verbatim>\<open>800 * 0.70\<close>, \<^verbatim>\<open>450 * 0.40\<close>, \<^verbatim>\<open>450 * 0.75\<close> are exactly \<open>240.0\<close>, \<open>560.0\<close>,
  \<open>180.0\<close> and \<open>337.5\<close> in double precision, so every float the game computes is
  represented exactly by a rational number.
\<close>

subsection \<open>Constants\<close>

definition SCREEN_WIDTH :: int where
  "SCREEN_WIDTH = 800"

definition SCREEN_HEIGHT :: int where
  "SCREEN_HEIGHT = 450"

definition PATH_CENTERS_Y :: "rat list" where
  "PATH_CENTERS_Y = [of_int SCREEN_HEIGHT * (40 / 100), of_int SCREEN_HEIGHT * (75 / 100)]"

definition MANHOLE_CENTERS_X :: "rat list" where
  "MANHOLE_CENTERS_X = [of_int SCREEN_WIDTH * (30 / 100), of_int SCREEN_WIDTH * (70 / 100)]"

definition MANHOLE_COLLISION_WIDTH :: int where
  "MANHOLE_COLLISION_WIDTH = 50"

definition PEDESTRIAN_WIDTH :: int where
  "PEDESTRIAN_WIDTH = 20"

definition PEDESTRIAN_HEIGHT :: int where
  "PEDESTRIAN_HEIGHT = 40"

definition PEDESTRIAN_SPEED :: rat where
  "PEDESTRIAN_SPEED = 3 / 2"

definition PEDESTRIAN_SPAWN_RATE_MIN :: int where
  "PEDESTRIAN_SPAWN_RATE_MIN = 200"

definition PEDESTRIAN_SPAWN_RATE_MAX :: int where
  "PEDESTRIAN_SPAWN_RATE_MAX = 400"

subsection \<open>Rectangles\<close>

text \<open>
  A \<^verbatim>\<open>pygame.Rect\<close> holds four C integers. A float given to the constructor is
  converted by a C cast, which truncates toward zero (\<open>int_cast\<close>). A float assigned to
  an attribute such as \<^verbatim>\<open>x\<close> is rounded to the nearest integer, a half going away from
  zero (\<open>int_round\<close>): \<open>230.5\<close> becomes \<open>231\<close> and \<open>-18.5\<close> becomes \<open>-19\<close>.
  \<^verbatim>\<open>left\<close> is \<^verbatim>\<open>x\<close>, \<^verbatim>\<open>right\<close> is \<^verbatim>\<open>x + w\<close> and \<^verbatim>\<open>centerx\<close> is \<^verbatim>\<open>x + w // 2\<close>.
\<close>

record rect =
  rect_x :: int
  rect_y :: int
  rect_w :: int
  rect_h :: int

definition int_cast :: "rat \<Rightarrow> int" where
  "int_cast q = (if 0 \<le> q then \<lfloor>q\<rfloor> else \<lceil>q\<rceil>)"

definition int_round :: "rat \<Rightarrow> int" where
  "int_round q = (if 0 \<le> q then \<lfloor>q + 1 / 2\<rfloor> else \<lceil>q - 1 / 2\<rceil>)"

definition Rect :: "rat \<Rightarrow> rat \<Rightarrow> rat \<Rightarrow> rat \<Rightarrow> rect" where
  "Rect x y w h = \<lparr>rect_x = int_cast x, rect_y = int_cast y, rect_w = int_cast w, rect_h = int_cast h\<rparr>"

definition rect_left :: "rect \<Rightarrow> int" where
  "rect_left r = rect_x r"

definition rect_right :: "rect \<Rightarrow> int" where
  "rect_right r = rect_x r + rect_w r"

definition rect_centerx :: "rect \<Rightarrow> int" where
  "rect_centerx r = rect_x r + rect_w r div 2"

subsection \<open>Pedestrians and the global game variables\<close>

text \<open>
  A pedestrian is the dict \<^verbatim>\<open>{'rect': ..., 'row': ..., 'scored_at_indices': set()}\<close>;
  every pedestrian owns a fresh set, so no two pedestrians share one.
\<close>

record pedestrian =
  p_rect :: rect
  p_row :: int
  scored_at_indices :: "(int \<times> int) set"

record game =
  score :: int
  lives :: int
  player_row_index :: int
  player_col_index :: int
  pedestrians :: "pedestrian list"
  game_over :: bool
  spawn_timer :: int
  next_spawn_delay :: int
  running :: bool

subsection \<open>Input events\<close>

datatype key = K_LEFT | K_a | K_RIGHT | K_d | K_UP | K_w | K_DOWN | K_s | K_r | K_other

datatype event = QUIT | KEYDOWN key | OTHER_EVENT

section \<open>Operations\<close>

text \<open>
  The two calls into \<^verbatim>\<open>random\<close> are the only sources of nondeterminism. Their results
  are arguments of the model: \<open>row_draw\<close> stands for \<^verbatim>\<open>random.choice([0, 1])\<close>, which
  returns 0 or 1, and \<open>delay_draw\<close> for
  \<^verbatim>\<open>random.randint(PEDESTRIAN_SPAWN_RATE_MIN, PEDESTRIAN_SPAWN_RATE_MAX)\<close>, which returns
  an integer of that inclusive range.
\<close>

definition valid_row_draw :: "int \<Rightarrow> bool" where
  "valid_row_draw r \<longleftrightarrow> r = 0 \<or> r = 1"

definition valid_delay_draw :: "int \<Rightarrow> bool" where
  "valid_delay_draw d \<longleftrightarrow> PEDESTRIAN_SPAWN_RATE_MIN \<le> d \<and> d \<le> PEDESTRIAN_SPAWN_RATE_MAX"

definition py_enumerate :: "'a list \<Rightarrow> (int \<times> 'a) list" where
  "py_enumerate xs = zip (map int [0..<length xs]) xs"

definition create_pedestrian :: "int \<Rightarrow> pedestrian" where
  "create_pedestrian row_draw =
     (let ped_row = row_draw;
          ped_center_y = PATH_CENTERS_Y ! nat ped_row;
          ped_rect = Rect (0 - of_int PEDESTRIAN_WIDTH)
                          (ped_center_y - of_int PEDESTRIAN_HEIGHT / 2)
                          (of_int PEDESTRIAN_WIDTH)
                          (of_int PEDESTRIAN_HEIGHT)
      in \<lparr>p_rect = ped_rect, p_row = ped_row, scored_at_indices = {}\<rparr>)"

definition reset_game :: "int \<Rightarrow> game \<Rightarrow> game" where
  "reset_game delay_draw g =
     g\<lparr>score := 0, lives := 3, player_row_index := 0, player_col_index := 0,
       pedestrians := [], game_over := False, spawn_timer := 0,
       next_spawn_delay := delay_draw\<rparr>"

text \<open>
  Module initialisation: the global variables of lines 69 to 78, then the call of
  \<^verbatim>\<open>reset_game\<close> of line 132 and \<^verbatim>\<open>running = True\<close>. Two delays are drawn.
\<close>

definition initial_game :: "int \<Rightarrow> int \<Rightarrow> game" where
  "initial_game d0 d1 =
     (reset_game d1
        \<lparr>score = 0, lives = 3, player_row_index = 0, player_col_index = 0,
         pedestrians = [], game_over = False, spawn_timer = 0,
         next_spawn_delay = d0, running = False\<rparr>)\<lparr>running := True\<rparr>"

subsection \<open>Event handling\<close>

text \<open>
  One iteration of \<^verbatim>\<open>for event in pygame.event.get()\<close>. Python's \<^verbatim>\<open>%\<close> with a positive
  divisor is \<open>mod\<close> on \<^typ>\<open>int\<close>. The delay is the draw \<^verbatim>\<open>reset_game\<close> makes if it is
  called.
\<close>

definition handle_event :: "int \<Rightarrow> event \<Rightarrow> game \<Rightarrow> game" where
  "handle_event delay_draw ev g0 =
     (let g = (if ev = QUIT then g0\<lparr>running := False\<rparr> else g0) in
      case ev of
        KEYDOWN k \<Rightarrow>
          if \<not> game_over g then
            (if k = K_LEFT \<or> k = K_a then
               g\<lparr>player_col_index := (player_col_index g - 1) mod int (length MANHOLE_CENTERS_X)\<rparr>
             else if k = K_RIGHT \<or> k = K_d then
               g\<lparr>player_col_index := (player_col_index g + 1) mod int (length MANHOLE_CENTERS_X)\<rparr>
             else if k = K_UP \<or> k = K_w then
               g\<lparr>player_row_index := (player_row_index g - 1) mod int (length PATH_CENTERS_Y)\<rparr>
             else if k = K_DOWN \<or> k = K_s then
               g\<lparr>player_row_index := (player_row_index g + 1) mod int (length PATH_CENTERS_Y)\<rparr>
             else g)
          else (if k = K_r then reset_game delay_draw g else g)
      | _ \<Rightarrow> g)"

fun handle_events :: "(event \<times> int) list \<Rightarrow> game \<Rightarrow> game" where
  "handle_events [] g = g"
| "handle_events ((ev, delay_draw) # evs) g = handle_events evs (handle_event delay_draw ev g)"

subsection \<open>Game logic of one frame\<close>

text \<open>Lines 170 to 174: the spawn timer.\<close>

definition spawn_pedestrians :: "int \<Rightarrow> int \<Rightarrow> game \<Rightarrow> game" where
  "spawn_pedestrians row_draw delay_draw g0 =
     (let g = g0\<lparr>spawn_timer := spawn_timer g0 + 1\<rparr> in
      if spawn_timer g \<ge> next_spawn_delay g then
        g\<lparr>pedestrians := pedestrians g @ [create_pedestrian row_draw],
          spawn_timer := 0,
          next_spawn_delay := delay_draw\<rparr>
      else g)"

text \<open>
  Lines 190 to 213: the loop over \<^verbatim>\<open>enumerate(MANHOLE_CENTERS_X)\<close> for one pedestrian.
  It reads the player indices and updates \<^verbatim>\<open>score\<close> and \<^verbatim>\<open>lives\<close> in the globals and
  the pedestrian's own set; the result is the set, \<^verbatim>\<open>fell_in_hole\<close> and the globals.
  \<^verbatim>\<open>break\<close> is the branch without a recursive call.
\<close>

fun check_columns ::
  "(int \<times> rat) list \<Rightarrow> int \<Rightarrow> int \<Rightarrow> (int \<times> int) set \<Rightarrow> game \<Rightarrow> (int \<times> int) set \<times> bool \<times> game" where
  "check_columns [] ped_row ped_center_x scored g = (scored, False, g)"
| "check_columns ((current_col_index, manhole_x) # cols) ped_row ped_center_x scored g =
     (let zone_left = manhole_x - of_int MANHOLE_COLLISION_WIDTH / 2;
          zone_right = manhole_x + of_int MANHOLE_COLLISION_WIDTH / 2
      in
      if zone_left < of_int ped_center_x \<and> of_int ped_center_x < zone_right then
        (let is_covered = (ped_row = player_row_index g \<and> current_col_index = player_col_index g) in
         if is_covered then
           (let current_hole_tuple = (ped_row, current_col_index) in
            if of_int ped_center_x \<ge> manhole_x \<and> current_hole_tuple \<notin> scored then
              check_columns cols ped_row ped_center_x (insert current_hole_tuple scored)
                (g\<lparr>score := score g + 1\<rparr>)
            else check_columns cols ped_row ped_center_x scored g)
         else (scored, True, g\<lparr>lives := lives g - 1\<rparr>))
      else check_columns cols ped_row ped_center_x scored g)"

text \<open>
  Lines 180 to 218: the body of the loop over \<^verbatim>\<open>enumerate(pedestrians)\<close> for the
  pedestrian at index \<open>i\<close>. \<^verbatim>\<open>ped_rect.x += PEDESTRIAN_SPEED\<close> reads the integer \<^verbatim>\<open>x\<close>,
  adds the float and assigns the sum, which the rectangle rounds. The result is the
  pedestrian as mutated in place, the globals and the list of indices to remove.
\<close>

definition process_pedestrian :: "nat \<Rightarrow> pedestrian \<Rightarrow> game \<Rightarrow> nat list \<Rightarrow> pedestrian \<times> game \<times> nat list" where
  "process_pedestrian i ped_data g to_remove =
     (let ped_rect = (p_rect ped_data)\<lparr>rect_x := int_round (of_int (rect_x (p_rect ped_data)) + PEDESTRIAN_SPEED)\<rparr>;
          ped_row = p_row ped_data;
          ped_center_x = rect_centerx ped_rect;
          (scored, fell_in_hole, g1) =
             check_columns (py_enumerate MANHOLE_CENTERS_X) ped_row ped_center_x
               (scored_at_indices ped_data) g;
          to_remove1 = (if fell_in_hole then to_remove @ [i] else to_remove);
          ped_data1 = ped_data\<lparr>p_rect := ped_rect, scored_at_indices := scored\<rparr>
      in
      if \<not> fell_in_hole \<and> rect_left ped_rect > SCREEN_WIDTH then
        (ped_data1, g1\<lparr>score := score g1 + 5\<rparr>, to_remove1 @ [i])
      else (ped_data1, g1, to_remove1))"

fun process_pedestrians ::
  "nat \<Rightarrow> pedestrian list \<Rightarrow> game \<Rightarrow> nat list \<Rightarrow> pedestrian list \<times> game \<times> nat list" where
  "process_pedestrians i [] g to_remove = ([], g, to_remove)"
| "process_pedestrians i (ped_data # rest) g to_remove =
     (let (ped_data1, g1, to_remove1) = process_pedestrian i ped_data g to_remove;
          (rest1, g2, to_remove2) = process_pedestrians (Suc i) rest g1 to_remove1
      in (ped_data1 # rest1, g2, to_remove2))"

text \<open>
  Lines 222 to 224. \<^verbatim>\<open>sorted(list(set(...)), reverse=True)\<close> is the reversed sorted
  list of the set of indices. The indices come from \<^verbatim>\<open>enumerate\<close>, so \<^verbatim>\<open>0 <= index\<close>
  holds by their type; the upper bound is checked as in the source.
\<close>

definition del_at :: "nat \<Rightarrow> 'a list \<Rightarrow> 'a list" where
  "del_at index xs = take index xs @ drop (Suc index) xs"

definition remove_pedestrians :: "nat list \<Rightarrow> 'a list \<Rightarrow> 'a list" where
  "remove_pedestrians to_remove peds =
     fold (\<lambda>index ps. if index < length ps then del_at index ps else ps)
          (rev (sorted_list_of_set (set to_remove))) peds"

text \<open>Lines 168 to 228: the game logic, skipped when the game is over.\<close>

definition game_logic :: "int \<Rightarrow> int \<Rightarrow> game \<Rightarrow> game" where
  "game_logic row_draw delay_draw g0 =
     (if \<not> game_over g0 then
        (let g1 = spawn_pedestrians row_draw delay_draw g0;
             (peds, g2, to_remove) = process_pedestrians 0 (pedestrians g1) g1 [];
             g3 = g2\<lparr>pedestrians := remove_pedestrians to_remove peds\<rparr>
         in if lives g3 \<le> 0 then g3\<lparr>game_over := True\<rparr> else g3)
      else g0)"

text \<open>
  One iteration of \<^verbatim>\<open>while running\<close>: the queued events, each with the delay a restart
  would draw, then the game logic. The loop itself is run on a finite list of frame
  inputs; it leaves when \<^verbatim>\<open>running\<close> is false.
\<close>

definition frame :: "(event \<times> int) list \<Rightarrow> int \<Rightarrow> int \<Rightarrow> game \<Rightarrow> game" where
  "frame evs row_draw delay_draw g = game_logic row_draw delay_draw (handle_events evs g)"

fun main_loop :: "((event \<times> int) list \<times> int \<times> int) list \<Rightarrow> game \<Rightarrow> game" where
  "main_loop [] g = g"
| "main_loop ((evs, row_draw, delay_draw) # frames) g =
     (if running g then main_loop frames (frame evs row_draw delay_draw g) else g)"

section \<open>Predicates of the properties\<close>

text \<open>
  The collision zone of a manhole is the open interval the source tests with
  \<^verbatim>\<open>zone_left < ped_center_x < zone_right\<close>. A pedestrian is in an uncovered zone when
  its centre is in the zone of some column and the player is not on that row and column:
  the condition under which the column loop reaches its \<^verbatim>\<open>else\<close> branch.
\<close>

definition in_zone :: "rat \<Rightarrow> int \<Rightarrow> bool" where
  "in_zone manhole_x cx \<longleftrightarrow>
     manhole_x - of_int MANHOLE_COLLISION_WIDTH / 2 < of_int cx \<and>
     of_int cx < manhole_x + of_int MANHOLE_COLLISION_WIDTH / 2"

definition in_uncovered_zone :: "game \<Rightarrow> pedestrian \<Rightarrow> bool" where
  "in_uncovered_zone g p \<longleftrightarrow>
     (\<exists>(c, manhole_x) \<in> set (py_enumerate MANHOLE_CENTERS_X).
        in_zone manhole_x (rect_centerx (p_rect p)) \<and>
        \<not> (p_row p = player_row_index g \<and> c = player_col_index g))"

text \<open>The test of line 216, \<^verbatim>\<open>ped_rect.left > SCREEN_WIDTH\<close>.\<close>

definition off_screen :: "pedestrian \<Rightarrow> bool" where
  "off_screen p \<longleftrightarrow> rect_left (p_rect p) > SCREEN_WIDTH"

definition gone :: "game \<Rightarrow> pedestrian \<Rightarrow> bool" where
  "gone g p \<longleftrightarrow> in_uncovered_zone g p \<or> off_screen p"

text \<open>
  The pedestrian as one pass of the loop body leaves it: moved, and with the set of
  credited slots the column loop computed.
\<close>

definition step_ped :: "game \<Rightarrow> pedestrian \<Rightarrow> pedestrian" where
  "step_ped g p = fst (process_pedestrian 0 p g [])"

text \<open>The eight keys that move the player, and the range of the two player indices.\<close>

definition is_move_key :: "key \<Rightarrow> bool" where
  "is_move_key k \<longleftrightarrow> k \<in> {K_LEFT, K_a, K_RIGHT, K_d, K_UP, K_w, K_DOWN, K_s}"

fun is_move_event :: "event \<Rightarrow> bool" where
  "is_move_event (KEYDOWN k) = is_move_key k"
| "is_move_event _ = False"

definition move_events :: "(event \<times> int) list \<Rightarrow> bool" where
  "move_events evs \<longleftrightarrow> list_all (\<lambda>(ev, delay_draw). is_move_event ev) evs"

definition indices_in_range :: "game \<Rightarrow> bool" where
  "indices_in_range g \<longleftrightarrow>
     (player_row_index g = 0 \<or> player_row_index g = 1) \<and>
     (player_col_index g = 0 \<or> player_col_index g = 1)"

text \<open>
  The claim about the bonus speaks of the leading edge of a pedestrian. Pedestrians walk
  to the right, so this definition follows the claim's words: the leading edge is the
  right edge of the rectangle. The source tests the left edge (\<open>off_screen\<close> above).
\<close>

definition leading_edge :: "pedestrian \<Rightarrow> int" where
  "leading_edge p = rect_right (p_rect p)"

text \<open>A list of queued events without the restart key.\<close>

definition no_restart :: "(event \<times> int) list \<Rightarrow> bool" where
  "no_restart evs \<longleftrightarrow> list_all (\<lambda>(ev, delay_draw). ev \<noteq> KEYDOWN K_r) evs"

text \<open>
  The credited slots of a pedestrian are slots of its own row, one for each of the two
  columns.
\<close>

definition credits_ok :: "pedestrian \<Rightarrow> bool" where
  "credits_ok p \<longleftrightarrow> scored_at_indices p \<subseteq> {(p_row p, 0), (p_row p, 1)}"

subsection \<open>Example states\<close>

definition lost_game :: game where
  "lost_game =
     \<lparr>score = 7, lives = 0, player_row_index = 1, player_col_index = 1,
      pedestrians = [\<lparr>p_rect = \<lparr>rect_x = 300, rect_y = 160, rect_w = 20, rect_h = 40\<rparr>,
                       p_row = 0, scored_at_indices = {(0, 0)}\<rparr>],
      game_over = True, spawn_timer = 17, next_spawn_delay = 333, running = True\<rparr>"

definition fresh_game :: game where
  "fresh_game = initial_game 300 250"

definition walker :: "int \<Rightarrow> int \<Rightarrow> (int \<times> int) set \<Rightarrow> pedestrian" where
  "walker x row credited =
     \<lparr>p_rect = \<lparr>rect_x = x, rect_y = (if row = 0 then 160 else 317), rect_w = 20, rect_h = 40\<rparr>,
      p_row = row, scored_at_indices = credited\<rparr>"

definition street_game :: "pedestrian list \<Rightarrow> game" where
  "street_game peds = fresh_game\<lparr>pedestrians := peds\<rparr>"

section \<open>Basic facts\<close>

lemma manhole_columns: "py_enumerate MANHOLE_CENTERS_X = [(0, 240), (1, 560)]"
  by (simp add: py_enumerate_def MANHOLE_CENTERS_X_def SCREEN_WIDTH_def upt_rec)

lemma move_x: "int_round (of_int x + PEDESTRIAN_SPEED) = (if - 1 \<le> x then x + 2 else x + 1)"
  unfolding int_round_def PEDESTRIAN_SPEED_def by (auto; linarith)

lemma check_columns_concrete:
  "check_columns (py_enumerate MANHOLE_CENTERS_X) ped_row cx scored g =
     (if 215 < cx \<and> cx < 265 then
        (if ped_row = player_row_index g \<and> player_col_index g = 0 then
           (if 240 \<le> cx \<and> (ped_row, 0) \<notin> scored
            then (insert (ped_row, 0) scored, False, g\<lparr>score := score g + 1\<rparr>)
            else (scored, False, g))
         else (scored, True, g\<lparr>lives := lives g - 1\<rparr>))
      else if 535 < cx \<and> cx < 585 then
        (if ped_row = player_row_index g \<and> player_col_index g = 1 then
           (if 560 \<le> cx \<and> (ped_row, 1) \<notin> scored
            then (insert (ped_row, 1) scored, False, g\<lparr>score := score g + 1\<rparr>)
            else (scored, False, g))
         else (scored, True, g\<lparr>lives := lives g - 1\<rparr>))
      else (scored, False, g))"
  by (auto simp add: manhole_columns MANHOLE_COLLISION_WIDTH_def Let_def)

lemma in_uncovered_zone_concrete:
  "in_uncovered_zone g p \<longleftrightarrow>
     (let cx = rect_centerx (p_rect p) in
      (215 < cx \<and> cx < 265 \<and> \<not> (p_row p = player_row_index g \<and> player_col_index g = 0)) \<or>
      (535 < cx \<and> cx < 585 \<and> \<not> (p_row p = player_row_index g \<and> player_col_index g = 1)))"
  by (auto simp add: in_uncovered_zone_def manhole_columns in_zone_def MANHOLE_COLLISION_WIDTH_def Let_def)

lemma process_pedestrian_concrete:
  "process_pedestrian i p g rm =
   (let x = rect_x (p_rect p);
        x1 = (if - 1 \<le> x then x + 2 else x + 1);
        r1 = (p_rect p)\<lparr>rect_x := x1\<rparr>;
        cx = rect_centerx r1;
        (sa, fell, g1) = check_columns (py_enumerate MANHOLE_CENTERS_X) (p_row p) cx (scored_at_indices p) g;
        p1 = p\<lparr>p_rect := r1, scored_at_indices := sa\<rparr>
    in if fell then (p1, g1, rm @ [i])
       else if rect_left r1 > SCREEN_WIDTH then (p1, g1\<lparr>score := score g1 + 5\<rparr>, rm @ [i])
       else (p1, g1, rm))"
  by (simp add: process_pedestrian_def move_x Let_def split: prod.splits)

lemma check_columns_Cons:
  "check_columns ((c, mx) # cols) r cx sa g =
     (if in_zone mx cx then
        (if r = player_row_index g \<and> c = player_col_index g then
           (if mx \<le> of_int cx \<and> (r, c) \<notin> sa
            then check_columns cols r cx (insert (r, c) sa) (g\<lparr>score := score g + 1\<rparr>)
            else check_columns cols r cx sa g)
         else (sa, True, g\<lparr>lives := lives g - 1\<rparr>))
      else check_columns cols r cx sa g)"
  by (simp add: Let_def in_zone_def)

lemma check_columns_frame:
  "player_row_index (snd (snd (check_columns cols r cx sa g))) = player_row_index g \<and>
   player_col_index (snd (snd (check_columns cols r cx sa g))) = player_col_index g \<and>
   pedestrians (snd (snd (check_columns cols r cx sa g))) = pedestrians g \<and>
   game_over (snd (snd (check_columns cols r cx sa g))) = game_over g \<and>
   spawn_timer (snd (snd (check_columns cols r cx sa g))) = spawn_timer g \<and>
   next_spawn_delay (snd (snd (check_columns cols r cx sa g))) = next_spawn_delay g \<and>
   running (snd (snd (check_columns cols r cx sa g))) = running g"
proof (induction cols arbitrary: r sa g)
  case Nil
  show ?case by simp
next
  case (Cons a cols)
  obtain c mx where a: "a = (c, mx)" by (cases a)
  show ?case
    unfolding a by (simp add: check_columns_Cons Cons.IH del: check_columns.simps)
qed

lemma check_columns_mono:
  "sa \<subseteq> fst (check_columns cols r cx sa g)"
proof (induction cols arbitrary: r sa g)
  case Nil
  show ?case by simp
next
  case (Cons a cols)
  obtain c mx where a: "a = (c, mx)" by (cases a)
  show ?case
    unfolding a
    using Cons.IH [of sa r g] Cons.IH [of "insert (r, c) sa" r "g\<lparr>score := score g + 1\<rparr>"]
    by (auto simp add: check_columns_Cons simp del: check_columns.simps)
qed

lemma check_columns_fell:
  "fst (snd (check_columns cols r cx sa g)) =
     (\<exists>(c, mx) \<in> set cols. in_zone mx cx \<and> \<not> (r = player_row_index g \<and> c = player_col_index g))"
proof (induction cols arbitrary: r sa g)
  case Nil
  show ?case by simp
next
  case (Cons a cols)
  obtain c mx where a: "a = (c, mx)" by (cases a)
  show ?case
    unfolding a by (simp add: check_columns_Cons Cons.IH del: check_columns.simps)
qed

lemma check_columns_lives:
  "lives (snd (snd (check_columns cols r cx sa g))) =
     lives g - (if fst (snd (check_columns cols r cx sa g)) then 1 else 0)"
proof (induction cols arbitrary: r sa g)
  case Nil
  show ?case by simp
next
  case (Cons a cols)
  obtain c mx where a: "a = (c, mx)" by (cases a)
  show ?case
    unfolding a by (simp add: check_columns_Cons Cons.IH del: check_columns.simps)
qed

lemma check_columns_scored_indep:
  "player_row_index g' = player_row_index g \<Longrightarrow> player_col_index g' = player_col_index g \<Longrightarrow>
   fst (check_columns cols r cx sa g') = fst (check_columns cols r cx sa g)"
proof (induction cols arbitrary: r sa g g')
  case Nil
  show ?case by simp
next
  case (Cons a cols)
  obtain c mx where a: "a = (c, mx)" by (cases a)
  have 1: "fst (check_columns cols r' cx sa g') = fst (check_columns cols r' cx sa g)" for r'
    using Cons.prems by (intro Cons.IH)
  have 2: "fst (check_columns cols r' cx sa' (g'\<lparr>score := score g' + 1\<rparr>)) =
           fst (check_columns cols r' cx sa' (g\<lparr>score := score g + 1\<rparr>))" for r' sa'
    using Cons.prems by (intro Cons.IH) simp_all
  show ?case
    unfolding a check_columns_Cons using Cons.prems 1 2 by simp
qed

lemma step_ped_eq:
  "step_ped g p =
     p\<lparr>p_rect := (p_rect p)\<lparr>rect_x := int_round (of_int (rect_x (p_rect p)) + PEDESTRIAN_SPEED)\<rparr>,
       scored_at_indices :=
         fst (check_columns (py_enumerate MANHOLE_CENTERS_X) (p_row p)
               (rect_centerx ((p_rect p)\<lparr>rect_x := int_round (of_int (rect_x (p_rect p)) + PEDESTRIAN_SPEED)\<rparr>))
               (scored_at_indices p) g)\<rparr>"
  by (simp add: step_ped_def process_pedestrian_def Let_def split: prod.splits)

lemma step_ped_indep:
  assumes "player_row_index g' = player_row_index g" and "player_col_index g' = player_col_index g"
  shows "step_ped g' p = step_ped g p"
  unfolding step_ped_eq using check_columns_scored_indep [OF assms] by simp

lemma step_ped_row [simp]: "p_row (step_ped g p) = p_row p"
  by (simp add: step_ped_eq)

lemma process_pedestrian_eq:
  "process_pedestrian i p g rm =
     (let p1 = step_ped g p;
          g1 = snd (snd (check_columns (py_enumerate MANHOLE_CENTERS_X) (p_row p)
                 (rect_centerx (p_rect p1)) (scored_at_indices p) g))
      in if in_uncovered_zone g p1 then (p1, g1, rm @ [i])
         else if off_screen p1 then (p1, g1\<lparr>score := score g1 + 5\<rparr>, rm @ [i])
         else (p1, g1, rm))"
proof -
  let ?r = "(p_rect p)\<lparr>rect_x := int_round (of_int (rect_x (p_rect p)) + PEDESTRIAN_SPEED)\<rparr>"
  let ?cc = "check_columns (py_enumerate MANHOLE_CENTERS_X) (p_row p) (rect_centerx ?r) (scored_at_indices p) g"
  have r: "p_rect (step_ped g p) = ?r" by (simp add: step_ped_eq)
  have fell: "fst (snd ?cc) = in_uncovered_zone g (step_ped g p)"
    by (simp add: check_columns_fell in_uncovered_zone_def r)
  obtain sa f g1 where cc: "?cc = (sa, f, g1)" by (cases ?cc)
  have p1: "step_ped g p = p\<lparr>p_rect := ?r, scored_at_indices := sa\<rparr>"
    using cc by (simp add: step_ped_eq)
  from fell cc have f: "f = in_uncovered_zone g (step_ped g p)" by simp
  show ?thesis
    unfolding process_pedestrian_def Let_def cc r off_screen_def
    using f p1 by (simp add: cc)
qed

section \<open>The removal pass\<close>

text \<open>
  Deleting the marked indices from the largest down leaves exactly the elements at the
  unmarked indices, in their order.
\<close>

lemma del_at_guard: "(if i < length ps then del_at i ps else ps) = del_at i ps"
  by (simp add: del_at_def)

lemma del_at_Cons:
  "del_at 0 (x # xs) = xs" "del_at (Suc i) (x # xs) = x # del_at i xs" "del_at i [] = []"
  by (simp_all add: del_at_def)

lemma del_at_nths:
  "\<forall>s \<in> S. a < s \<Longrightarrow> del_at a (nths xs (- S)) = nths xs (- insert a S)"
proof (induction xs arbitrary: a S)
  case Nil
  show ?case by (simp add: del_at_Cons)
next
  case (Cons x xs)
  from Cons.prems have 0: "0 \<notin> S" by auto
  let ?S' = "{j. Suc j \<in> S}"
  have shift: "{j. Suc j \<notin> S} = - ?S'" by auto
  have hd: "nths (x # xs) (- S) = x # nths xs (- ?S')"
    using 0 by (simp add: nths_Cons shift)
  show ?case
  proof (cases a)
    case 0
    have "{j. Suc j \<notin> S} = - ?S'" by auto
    then show ?thesis unfolding hd 0 by (simp add: nths_Cons del_at_Cons)
  next
    case (Suc a')
    from Cons.prems Suc have "\<forall>s \<in> ?S'. a' < s" by auto
    then have IH: "del_at a' (nths xs (- ?S')) = nths xs (- insert a' ?S')" by (rule Cons.IH)
    have "{j. j \<noteq> a' \<and> Suc j \<notin> S} = - insert a' ?S'" by auto
    then show ?thesis unfolding hd Suc using IH 0 by (simp add: nths_Cons del_at_Cons)
  qed
qed

lemma foldr_del_at_nths:
  "sorted js \<Longrightarrow> distinct js \<Longrightarrow> foldr del_at js xs = nths xs (- set js)"
proof (induction js)
  case Nil
  show ?case by (simp add: nths_all)
next
  case (Cons a js)
  then have IH: "foldr del_at js xs = nths xs (- set js)" by simp
  from Cons.prems have "\<forall>s \<in> set js. a < s" by (fastforce simp add: order_less_le)
  then show ?case using IH by (simp add: del_at_nths)
qed

lemma remove_pedestrians_nths:
  "remove_pedestrians to_remove peds = nths peds (- set to_remove)"
proof -
  have "remove_pedestrians to_remove peds = fold del_at (rev (sorted_list_of_set (set to_remove))) peds"
    by (simp add: remove_pedestrians_def del_at_guard)
  also have "\<dots> = foldr del_at (sorted_list_of_set (set to_remove)) peds"
    by (simp add: foldr_conv_fold)
  also have "\<dots> = nths peds (- set (sorted_list_of_set (set to_remove)))"
    by (rule foldr_del_at_nths) simp_all
  finally show ?thesis by simp
qed

lemma nths_cong_len:
  "(\<And>i. i < length xs \<Longrightarrow> (i \<in> A) = (i \<in> B)) \<Longrightarrow> nths xs A = nths xs B"
  unfolding nths_def
  by (intro arg_cong [where f = "map fst"] filter_cong refl) (auto simp add: set_zip)

lemma remove_pedestrians_filter:
  assumes "set to_remove = {k. k < length peds \<and> P (peds ! k)}"
  shows "remove_pedestrians to_remove peds = filter (\<lambda>p. \<not> P p) peds"
proof -
  have "nths peds (- set to_remove) = nths peds {i. i < length peds \<and> \<not> P (peds ! i)}"
    by (rule nths_cong_len) (simp add: assms)
  then show ?thesis by (simp add: remove_pedestrians_nths filter_eq_nths)
qed

section \<open>The loop over the pedestrians\<close>

lemma process_pedestrian_fst: "fst (process_pedestrian i p g rm) = step_ped g p"
  by (simp add: process_pedestrian_eq Let_def)

lemma process_pedestrian_marks:
  "snd (snd (process_pedestrian i p g rm)) = (if gone g (step_ped g p) then rm @ [i] else rm)"
  by (simp add: process_pedestrian_eq Let_def gone_def)

lemma process_pedestrian_lives:
  "lives (fst (snd (process_pedestrian i p g rm))) =
     lives g - (if in_uncovered_zone g (step_ped g p) then 1 else 0)"
proof -
  let ?cc = "check_columns (py_enumerate MANHOLE_CENTERS_X) (p_row p)
               (rect_centerx (p_rect (step_ped g p))) (scored_at_indices p) g"
  have "fst (snd ?cc) = in_uncovered_zone g (step_ped g p)"
    by (simp add: check_columns_fell in_uncovered_zone_def)
  then have "lives (snd (snd ?cc)) = lives g - (if in_uncovered_zone g (step_ped g p) then 1 else 0)"
    using check_columns_lives [of "py_enumerate MANHOLE_CENTERS_X" "p_row p"
        "rect_centerx (p_rect (step_ped g p))" "scored_at_indices p" g]
    by simp
  then show ?thesis
    by (simp add: process_pedestrian_eq Let_def)
qed

lemma process_pedestrian_frame:
  "player_row_index (fst (snd (process_pedestrian i p g rm))) = player_row_index g \<and>
   player_col_index (fst (snd (process_pedestrian i p g rm))) = player_col_index g \<and>
   pedestrians (fst (snd (process_pedestrian i p g rm))) = pedestrians g \<and>
   game_over (fst (snd (process_pedestrian i p g rm))) = game_over g \<and>
   spawn_timer (fst (snd (process_pedestrian i p g rm))) = spawn_timer g \<and>
   next_spawn_delay (fst (snd (process_pedestrian i p g rm))) = next_spawn_delay g \<and>
   running (fst (snd (process_pedestrian i p g rm))) = running g"
  by (simp add: process_pedestrian_eq Let_def check_columns_frame)

lemma process_pedestrians_Cons:
  "process_pedestrians i (p # ps) g rm =
     (let r = process_pedestrian i p g rm;
          rs = process_pedestrians (Suc i) ps (fst (snd r)) (snd (snd r))
      in (fst r # fst rs, fst (snd rs), snd (snd rs)))"
  by (simp add: Let_def split: prod.splits)

lemma process_pedestrians_frame:
  "player_row_index (fst (snd (process_pedestrians i ps g rm))) = player_row_index g \<and>
   player_col_index (fst (snd (process_pedestrians i ps g rm))) = player_col_index g \<and>
   pedestrians (fst (snd (process_pedestrians i ps g rm))) = pedestrians g \<and>
   game_over (fst (snd (process_pedestrians i ps g rm))) = game_over g \<and>
   spawn_timer (fst (snd (process_pedestrians i ps g rm))) = spawn_timer g \<and>
   next_spawn_delay (fst (snd (process_pedestrians i ps g rm))) = next_spawn_delay g \<and>
   running (fst (snd (process_pedestrians i ps g rm))) = running g"
proof (induction ps arbitrary: i g rm)
  case Nil
  show ?case by simp
next
  case (Cons p ps)
  show ?case
    unfolding process_pedestrians_Cons Let_def
    by (simp add: Cons.IH process_pedestrian_frame del: process_pedestrians.simps)
qed

lemma process_pedestrians_fst:
  "fst (process_pedestrians i ps g rm) = map (step_ped g) ps"
proof (induction ps arbitrary: i g rm)
  case Nil
  show ?case by simp
next
  case (Cons p ps)
  let ?g1 = "fst (snd (process_pedestrian i p g rm))"
  have "map (step_ped ?g1) ps = map (step_ped g) ps"
    using step_ped_indep [of ?g1 g] by (simp add: process_pedestrian_frame)
  then show ?case
    unfolding process_pedestrians_Cons Let_def
    by (simp add: Cons.IH process_pedestrian_fst del: process_pedestrians.simps)
qed

lemma in_uncovered_zone_indep:
  "player_row_index g' = player_row_index g \<Longrightarrow> player_col_index g' = player_col_index g \<Longrightarrow>
   in_uncovered_zone g' p = in_uncovered_zone g p"
  by (simp add: in_uncovered_zone_def)

lemma gone_indep:
  "player_row_index g' = player_row_index g \<Longrightarrow> player_col_index g' = player_col_index g \<Longrightarrow>
   gone g' p = gone g p"
  by (simp add: gone_def in_uncovered_zone_def)

lemma process_pedestrians_lives:
  "lives (fst (snd (process_pedestrians i ps g rm))) =
     lives g - int (length (filter (in_uncovered_zone g) (map (step_ped g) ps)))"
proof (induction ps arbitrary: i g rm)
  case Nil
  show ?case by simp
next
  case (Cons p ps)
  let ?g1 = "fst (snd (process_pedestrian i p g rm))"
  have idx: "player_row_index ?g1 = player_row_index g" "player_col_index ?g1 = player_col_index g"
    by (simp_all add: process_pedestrian_frame)
  have 1: "map (step_ped ?g1) ps = map (step_ped g) ps"
    using step_ped_indep [OF idx] by simp
  have 2: "in_uncovered_zone ?g1 = in_uncovered_zone g"
    using in_uncovered_zone_indep [OF idx] by (intro ext)
  show ?case
    unfolding process_pedestrians_Cons Let_def
    by (simp add: Cons.IH process_pedestrian_lives 1 2 del: process_pedestrians.simps)
qed

lemma process_pedestrians_marks:
  "set (snd (snd (process_pedestrians i ps g rm))) =
     set rm \<union> {i + k | k. k < length ps \<and> gone g (step_ped g (ps ! k))}"
proof (induction ps arbitrary: i g rm)
  case Nil
  show ?case by simp
next
  case (Cons p ps)
  let ?g1 = "fst (snd (process_pedestrian i p g rm))"
  have idx: "player_row_index ?g1 = player_row_index g" "player_col_index ?g1 = player_col_index g"
    by (simp_all add: process_pedestrian_frame)
  have 1: "step_ped ?g1 = step_ped g"
    using step_ped_indep [OF idx] by (intro ext)
  have 2: "gone ?g1 = gone g"
    using gone_indep [OF idx] by (intro ext)
  have split: "{i + k | k. k < Suc (length ps) \<and> gone g (step_ped g ((p # ps) ! k))} =
      (if gone g (step_ped g p) then {i} else {}) \<union>
      {Suc i + k | k. k < length ps \<and> gone g (step_ped g (ps ! k))}" (is "?L = ?R")
  proof (intro set_eqI iffI)
    fix x assume "x \<in> ?L"
    then obtain k where k: "x = i + k" "k < Suc (length ps)" "gone g (step_ped g ((p # ps) ! k))"
      by blast
    show "x \<in> ?R"
    proof (cases k)
      case 0
      with k show ?thesis by simp
    next
      case (Suc k')
      with k have "x = Suc i + k'" "k' < length ps" "gone g (step_ped g (ps ! k'))" by simp_all
      then show ?thesis by blast
    qed
  next
    fix x assume "x \<in> ?R"
    then consider "gone g (step_ped g p)" "x = i"
      | k' where "x = Suc i + k'" "k' < length ps" "gone g (step_ped g (ps ! k'))"
      by (auto split: if_splits)
    then show "x \<in> ?L"
    proof cases
      case 1
      then have "x = i + 0 \<and> 0 < Suc (length ps) \<and> gone g (step_ped g ((p # ps) ! 0))" by simp
      then show ?thesis by blast
    next
      case 2
      then have "x = i + Suc k' \<and> Suc k' < Suc (length ps) \<and> gone g (step_ped g ((p # ps) ! Suc k'))"
        by simp
      then show ?thesis by blast
    qed
  qed
  have "set (snd (snd (process_pedestrians i (p # ps) g rm))) =
        set (snd (snd (process_pedestrian i p g rm))) \<union>
        {Suc i + k | k. k < length ps \<and> gone g (step_ped g (ps ! k))}"
    unfolding process_pedestrians_Cons Let_def
    by (simp add: Cons.IH 1 2 del: process_pedestrians.simps)
  also have "\<dots> = set rm \<union> ((if gone g (step_ped g p) then {i} else {}) \<union>
        {Suc i + k | k. k < length ps \<and> gone g (step_ped g (ps ! k))})"
    by (simp add: process_pedestrian_marks)
  also have "\<dots> = set rm \<union> ?L"
    by (simp only: split)
  finally show ?case by simp
qed

section \<open>One frame of game logic\<close>

text \<open>
  While the game is running, the pedestrians after the frame are the moved pedestrians
  that neither fell nor left the screen, in their order, and the lives have gone down by
  the number of pedestrians that fell.
\<close>

lemma spawn_pedestrians_frame:
  "player_row_index (spawn_pedestrians r d g) = player_row_index g \<and>
   player_col_index (spawn_pedestrians r d g) = player_col_index g \<and>
   score (spawn_pedestrians r d g) = score g \<and>
   lives (spawn_pedestrians r d g) = lives g \<and>
   game_over (spawn_pedestrians r d g) = game_over g \<and>
   running (spawn_pedestrians r d g) = running g"
  by (simp add: spawn_pedestrians_def Let_def)

lemma game_logic_over: "game_over g \<Longrightarrow> game_logic r d g = g"
  by (simp add: game_logic_def)

lemma game_logic_unfold:
  assumes "\<not> game_over g"
  shows "game_logic r d g =
      (let g1 = spawn_pedestrians r d g;
           res = process_pedestrians 0 (pedestrians g1) g1 [];
           g3 = (fst (snd res))\<lparr>pedestrians := remove_pedestrians (snd (snd res)) (fst res)\<rparr>
       in if lives g3 \<le> 0 then g3\<lparr>game_over := True\<rparr> else g3)"
  using assms by (simp add: game_logic_def Let_def split: prod.splits)

lemma process_pedestrians_marks_sorted:
  "sorted_wrt (<) rm \<Longrightarrow> \<forall>j \<in> set rm. j < i \<Longrightarrow>
   sorted_wrt (<) (snd (snd (process_pedestrians i ps g rm))) \<and>
   (\<forall>j \<in> set (snd (snd (process_pedestrians i ps g rm))). j < i + length ps)"
proof (induction ps arbitrary: i g rm)
  case Nil
  then show ?case by simp
next
  case (Cons p ps)
  let ?r = "process_pedestrian i p g rm"
  have 1: "sorted_wrt (<) (snd (snd ?r))"
    using Cons.prems by (simp add: process_pedestrian_marks sorted_wrt_append)
  have 2: "\<forall>j \<in> set (snd (snd ?r)). j < Suc i"
    using Cons.prems by (auto simp add: process_pedestrian_marks less_Suc_eq)
  from Cons.IH [OF 1 2, of "fst (snd ?r)"] show ?case
    unfolding process_pedestrians_Cons Let_def by simp
qed

lemma game_logic_running:
  assumes "\<not> game_over g"
  shows "pedestrians (game_logic r d g) =
           filter (\<lambda>p. \<not> gone g p) (map (step_ped g) (pedestrians (spawn_pedestrians r d g))) \<and>
         lives (game_logic r d g) =
           lives g - int (length (filter (in_uncovered_zone g)
                                   (map (step_ped g) (pedestrians (spawn_pedestrians r d g))))) \<and>
         game_over (game_logic r d g) = (lives (game_logic r d g) \<le> 0) \<and>
         player_row_index (game_logic r d g) = player_row_index g \<and>
         player_col_index (game_logic r d g) = player_col_index g \<and>
         spawn_timer (game_logic r d g) = spawn_timer (spawn_pedestrians r d g) \<and>
         next_spawn_delay (game_logic r d g) = next_spawn_delay (spawn_pedestrians r d g) \<and>
         running (game_logic r d g) = running g"
proof -
  define g1 where "g1 = spawn_pedestrians r d g"
  define res where "res = process_pedestrians 0 (pedestrians g1) g1 []"
  define peds where "peds = fst res"
  define g2 where "g2 = fst (snd res)"
  define rm where "rm = snd (snd res)"
  have idx: "player_row_index g1 = player_row_index g" "player_col_index g1 = player_col_index g"
    by (simp_all add: g1_def spawn_pedestrians_frame)
  have step: "step_ped g1 p = step_ped g p" for p
    using idx by (rule step_ped_indep)
  have gone: "gone g1 p = gone g p" for p
    using idx by (rule gone_indep)
  have unc: "in_uncovered_zone g1 p = in_uncovered_zone g p" for p
    using idx by (rule in_uncovered_zone_indep)
  have peds: "peds = map (step_ped g) (pedestrians g1)"
    unfolding peds_def res_def process_pedestrians_fst using step by simp
  have "set rm = set [] \<union> {0 + k | k. k < length (pedestrians g1) \<and> gone g1 (step_ped g1 (pedestrians g1 ! k))}"
    unfolding rm_def res_def by (rule process_pedestrians_marks)
  then have rm: "set rm = {k. k < length peds \<and> gone g (peds ! k)}"
    unfolding peds step gone by (simp cong: conj_cong)
  have removed: "remove_pedestrians rm peds = filter (\<lambda>p. \<not> gone g p) peds"
    using rm by (rule remove_pedestrians_filter)
  have filt: "filter (in_uncovered_zone g1) (map (step_ped g1) (pedestrians g1)) =
             filter (in_uncovered_zone g) (map (step_ped g) (pedestrians g1))"
    by (rule arg_cong2 [where f = filter]) (auto simp add: step unc)
  have "lives g2 = lives g1 - int (length (filter (in_uncovered_zone g1) (map (step_ped g1) (pedestrians g1))))"
    unfolding g2_def res_def by (rule process_pedestrians_lives)
  then have lives2: "lives g2 = lives g - int (length (filter (in_uncovered_zone g) (map (step_ped g) (pedestrians g1))))"
    unfolding filt by (simp add: g1_def spawn_pedestrians_frame)
  have frame2: "player_row_index g2 = player_row_index g1" "player_col_index g2 = player_col_index g1"
    "spawn_timer g2 = spawn_timer g1" "next_spawn_delay g2 = next_spawn_delay g1"
    "running g2 = running g1" "game_over g2 = game_over g1"
    unfolding g2_def res_def by (simp_all add: process_pedestrians_frame)
  have g1g: "running g1 = running g" "game_over g1 = game_over g"
    by (simp_all add: g1_def spawn_pedestrians_frame)
  have eq: "game_logic r d g =
      (if lives g2 \<le> 0
       then g2\<lparr>pedestrians := remove_pedestrians rm peds, game_over := True\<rparr>
       else g2\<lparr>pedestrians := remove_pedestrians rm peds\<rparr>)"
    unfolding game_logic_unfold [OF assms] g1_def [symmetric] Let_def res_def [symmetric]
      peds_def [symmetric] g2_def [symmetric] rm_def [symmetric]
    by simp
  show ?thesis
    unfolding eq g1_def [symmetric] removed
    using lives2 frame2 idx g1g assms peds by simp
qed

lemma step_ped_concrete:
  "step_ped g p =
     p\<lparr>p_rect := (p_rect p)\<lparr>rect_x := (if - 1 \<le> rect_x (p_rect p) then rect_x (p_rect p) + 2 else rect_x (p_rect p) + 1)\<rparr>,
       scored_at_indices :=
         fst (check_columns (py_enumerate MANHOLE_CENTERS_X) (p_row p)
               (rect_centerx ((p_rect p)\<lparr>rect_x := (if - 1 \<le> rect_x (p_rect p) then rect_x (p_rect p) + 2 else rect_x (p_rect p) + 1)\<rparr>))
               (scored_at_indices p) g)\<rparr>"
  unfolding step_ped_eq move_x by simp

lemma in_zone_concrete:
  "(c, manhole_x) \<in> set (py_enumerate MANHOLE_CENTERS_X) \<Longrightarrow> in_zone manhole_x cx \<Longrightarrow>
     (c = 0 \<and> manhole_x = 240 \<and> 215 < cx \<and> cx < 265) \<or>
     (c = 1 \<and> manhole_x = 560 \<and> 535 < cx \<and> cx < 585)"
  by (auto simp add: manhole_columns in_zone_def MANHOLE_COLLISION_WIDTH_def)

lemma process_pedestrian_parts:
  "process_pedestrian i p g rm =
     (let cc = check_columns (py_enumerate MANHOLE_CENTERS_X) (p_row p)
                 (rect_centerx (p_rect (step_ped g p))) (scored_at_indices p) g
      in (step_ped g p,
          (if \<not> fst (snd cc) \<and> off_screen (step_ped g p)
           then (snd (snd cc))\<lparr>score := score (snd (snd cc)) + 5\<rparr> else snd (snd cc)),
          (if fst (snd cc) \<or> off_screen (step_ped g p) then rm @ [i] else rm)))"
  by (simp add: process_pedestrian_eq Let_def check_columns_fell in_uncovered_zone_def)

lemma step_ped_scored:
  "scored_at_indices (step_ped g p) =
     fst (check_columns (py_enumerate MANHOLE_CENTERS_X) (p_row p)
           (rect_centerx (p_rect (step_ped g p))) (scored_at_indices p) g)"
  by (simp add: step_ped_eq)

section \<open>Events\<close>

lemma len_consts [simp]:
  "length MANHOLE_CENTERS_X = 2" "length PATH_CENTERS_Y = 2"
  by (simp_all add: MANHOLE_CENTERS_X_def PATH_CENTERS_Y_def)

lemma handle_event_simps:
  "handle_event d QUIT g = g\<lparr>running := False\<rparr>"
  "handle_event d OTHER_EVENT g = g"
  "game_over g \<Longrightarrow> handle_event d (KEYDOWN k) g = (if k = K_r then reset_game d g else g)"
  "\<not> game_over g \<Longrightarrow> handle_event d (KEYDOWN K_LEFT) g = g\<lparr>player_col_index := (player_col_index g - 1) mod 2\<rparr>"
  "\<not> game_over g \<Longrightarrow> handle_event d (KEYDOWN K_a) g = g\<lparr>player_col_index := (player_col_index g - 1) mod 2\<rparr>"
  "\<not> game_over g \<Longrightarrow> handle_event d (KEYDOWN K_RIGHT) g = g\<lparr>player_col_index := (player_col_index g + 1) mod 2\<rparr>"
  "\<not> game_over g \<Longrightarrow> handle_event d (KEYDOWN K_d) g = g\<lparr>player_col_index := (player_col_index g + 1) mod 2\<rparr>"
  "\<not> game_over g \<Longrightarrow> handle_event d (KEYDOWN K_UP) g = g\<lparr>player_row_index := (player_row_index g - 1) mod 2\<rparr>"
  "\<not> game_over g \<Longrightarrow> handle_event d (KEYDOWN K_w) g = g\<lparr>player_row_index := (player_row_index g - 1) mod 2\<rparr>"
  "\<not> game_over g \<Longrightarrow> handle_event d (KEYDOWN K_DOWN) g = g\<lparr>player_row_index := (player_row_index g + 1) mod 2\<rparr>"
  "\<not> game_over g \<Longrightarrow> handle_event d (KEYDOWN K_s) g = g\<lparr>player_row_index := (player_row_index g + 1) mod 2\<rparr>"
  "\<not> game_over g \<Longrightarrow> handle_event d (KEYDOWN K_r) g = g"
  "\<not> game_over g \<Longrightarrow> handle_event d (KEYDOWN K_other) g = g"
  by (simp_all add: handle_event_def)

lemma handle_event_game_over:
  "game_over (handle_event d ev g) = (game_over g \<and> ev \<noteq> KEYDOWN K_r)"
proof (cases ev)
  case QUIT
  show ?thesis unfolding QUIT by (simp add: handle_event_simps(1))
next
  case OTHER_EVENT
  show ?thesis unfolding OTHER_EVENT by (simp add: handle_event_simps(2))
next
  case (KEYDOWN k)
  show ?thesis
  proof (cases "game_over g")
    case True
    then show ?thesis unfolding KEYDOWN by (simp add: handle_event_simps(3) reset_game_def)
  next
    case False
    then show ?thesis unfolding KEYDOWN by (cases k) (simp_all add: handle_event_simps)
  qed
qed

lemma handle_events_running_state:
  "\<not> game_over g \<Longrightarrow> \<not> game_over (handle_events evs g)"
proof (induction evs arbitrary: g)
  case Nil
  then show ?case by simp
next
  case (Cons a evs)
  obtain ev d where a: "a = (ev, d)" by (cases a)
  from Cons.prems have "\<not> game_over (handle_event d ev g)"
    by (simp only: handle_event_game_over) simp
  then have "\<not> game_over (handle_events evs (handle_event d ev g))"
    by (rule Cons.IH)
  then show ?case unfolding a by simp
qed

lemma mod2_range: "(x::int) mod 2 = 0 \<or> x mod 2 = 1"
  by auto

lemma handle_event_indices:
  assumes "indices_in_range g"
  shows "indices_in_range (handle_event d ev g)"
proof (cases ev)
  case QUIT
  with assms show ?thesis by (simp add: handle_event_simps(1) indices_in_range_def)
next
  case OTHER_EVENT
  with assms show ?thesis by (simp add: handle_event_simps(2))
next
  case (KEYDOWN k)
  show ?thesis
  proof (cases "game_over g")
    case True
    with assms show ?thesis
      unfolding KEYDOWN by (simp add: handle_event_simps(3) indices_in_range_def reset_game_def)
  next
    case False
    with assms show ?thesis
      unfolding KEYDOWN indices_in_range_def
      by (cases k) (simp_all add: handle_event_simps mod2_range)
  qed
qed

lemma handle_events_indices:
  "indices_in_range g \<Longrightarrow> indices_in_range (handle_events evs g)"
proof (induction evs arbitrary: g)
  case Nil
  then show ?case by simp
next
  case (Cons a evs)
  obtain ev d where a: "a = (ev, d)" by (cases a)
  from Cons.prems have "indices_in_range (handle_event d ev g)"
    by (rule handle_event_indices)
  then have "indices_in_range (handle_events evs (handle_event d ev g))"
    by (rule Cons.IH)
  then show ?case unfolding a by simp
qed

section \<open>Further facts\<close>

lemma fresh_game_simps:
  "score fresh_game = 0" "lives fresh_game = 3" "player_row_index fresh_game = 0"
  "player_col_index fresh_game = 0" "pedestrians fresh_game = []" "\<not> game_over fresh_game"
  "spawn_timer fresh_game = 0" "next_spawn_delay fresh_game = 250" "running fresh_game"
  by (simp_all add: fresh_game_def initial_game_def reset_game_def)

lemma walker_simps:
  "rect_x (p_rect (walker x row credited)) = x"
  "rect_w (p_rect (walker x row credited)) = 20"
  "p_row (walker x row credited) = row"
  "scored_at_indices (walker x row credited) = credited"
  by (simp_all add: walker_def)

lemma step_ped_centerx:
  "rect_centerx (p_rect (step_ped g p)) =
     (if - 1 \<le> rect_x (p_rect p) then rect_x (p_rect p) + 2 else rect_x (p_rect p) + 1) +
     rect_w (p_rect p) div 2"
  by (simp add: step_ped_concrete rect_centerx_def)

lemma step_ped_left:
  "rect_left (p_rect (step_ped g p)) =
     (if - 1 \<le> rect_x (p_rect p) then rect_x (p_rect p) + 2 else rect_x (p_rect p) + 1)"
  by (simp add: step_ped_concrete rect_left_def)

lemma step_ped_width: "rect_w (p_rect (step_ped g p)) = rect_w (p_rect p)"
  by (simp add: step_ped_concrete)

lemma check_columns_fell_score:
  "fst (snd (check_columns (py_enumerate MANHOLE_CENTERS_X) row cx sa g)) \<Longrightarrow>
   score (snd (snd (check_columns (py_enumerate MANHOLE_CENTERS_X) row cx sa g))) = score g"
  by (simp add: check_columns_concrete split: if_splits)

lemma step_ped_walker:
  "step_ped (street_game peds) (walker x row sa) =
     (walker x row sa)\<lparr>p_rect := (p_rect (walker x row sa))\<lparr>rect_x := (if - 1 \<le> x then x + 2 else x + 1)\<rparr>,
       scored_at_indices :=
         fst (check_columns (py_enumerate MANHOLE_CENTERS_X) row
               ((if - 1 \<le> x then x + 2 else x + 1) + 10) sa (street_game peds))\<rparr>"
  by (simp add: step_ped_concrete walker_simps rect_centerx_def)

lemma street_game_simps:
  "score (street_game peds) = 0" "lives (street_game peds) = 3"
  "player_row_index (street_game peds) = 0" "player_col_index (street_game peds) = 0"
  "pedestrians (street_game peds) = peds" "\<not> game_over (street_game peds)"
  "spawn_timer (street_game peds) = 0" "next_spawn_delay (street_game peds) = 250"
  "running (street_game peds)"
  by (simp_all add: street_game_def fresh_game_simps)

lemma length_remove_pedestrians:
  assumes "distinct rm" and "\<forall>j \<in> set rm. j < length peds"
  shows "length (remove_pedestrians rm peds) = length peds - length rm"
proof -
  have "{i. i < length peds \<and> i \<in> - set rm} = {..<length peds} - set rm" by auto
  then have "length (remove_pedestrians rm peds) = card ({..<length peds} - set rm)"
    by (simp add: remove_pedestrians_nths length_nths)
  also have "\<dots> = card {..<length peds} - card (set rm)"
    using assms(2) by (intro card_Diff_subset) auto
  also have "\<dots> = length peds - length rm"
    using assms(1) by (simp add: distinct_card)
  finally show ?thesis .
qed

lemma handle_event_over:
  assumes "game_over g" and "ev \<noteq> KEYDOWN K_r"
  shows "handle_event dd ev g = (if ev = QUIT then g\<lparr>running := False\<rparr> else g)"
proof (cases ev)
  case (KEYDOWN k)
  with assms show ?thesis by (simp add: handle_event_simps(3))
qed (simp_all add: handle_event_simps)

lemma handle_events_over:
  "game_over g \<Longrightarrow> no_restart evs \<Longrightarrow>
   handle_events evs g = g\<lparr>running := running (handle_events evs g)\<rparr>"
proof (induction evs arbitrary: g)
  case Nil
  show ?case by simp
next
  case (Cons a evs)
  obtain ev dd where a: "a = (ev, dd)" by (cases a)
  from Cons.prems have ne: "ev \<noteq> KEYDOWN K_r" and rest: "no_restart evs"
    by (simp_all add: a no_restart_def)
  let ?g1 = "handle_event dd ev g"
  have g1: "?g1 = (if ev = QUIT then g\<lparr>running := False\<rparr> else g)"
    using Cons.prems(1) ne by (rule handle_event_over)
  then have over: "game_over ?g1" using Cons.prems(1) by simp
  have IH: "handle_events evs ?g1 = ?g1\<lparr>running := running (handle_events evs ?g1)\<rparr>"
    using over rest by (rule Cons.IH)
  have "?g1\<lparr>running := b\<rparr> = g\<lparr>running := b\<rparr>" for b
    by (simp add: g1)
  with IH have "handle_events evs ?g1 = g\<lparr>running := running (handle_events evs ?g1)\<rparr>"
    by simp
  then show ?case by (simp add: a)
qed

lemma create_pedestrian_concrete:
  "valid_row_draw r \<Longrightarrow> create_pedestrian r = walker (- 20) r {}"
  unfolding valid_row_draw_def
  by (auto simp add: create_pedestrian_def Rect_def int_cast_def walker_def PATH_CENTERS_Y_def
        SCREEN_HEIGHT_def PEDESTRIAN_WIDTH_def PEDESTRIAN_HEIGHT_def Let_def floor_eq_iff)

lemma credits_ok_card:
  assumes "credits_ok p"
  shows "finite (scored_at_indices p) \<and> card (scored_at_indices p) \<le> 2"
proof -
  let ?S = "{(p_row p, 0 :: int), (p_row p, 1)}"
  from assms have sub: "scored_at_indices p \<subseteq> ?S" by (simp add: credits_ok_def)
  then have fin: "finite (scored_at_indices p)" by (rule finite_subset) simp
  have "card (scored_at_indices p) \<le> card ?S" using sub by (intro card_mono) simp_all
  also have "\<dots> \<le> 2" by (simp add: card_insert_if)
  finally show ?thesis using fin by simp
qed

lemma check_columns_credit:
  "fst (check_columns (py_enumerate MANHOLE_CENTERS_X) row cx sa g) \<subseteq> insert (row, 0) (insert (row, 1) sa) \<and>
   score (snd (snd (check_columns (py_enumerate MANHOLE_CENTERS_X) row cx sa g))) =
     score g + int (card (fst (check_columns (py_enumerate MANHOLE_CENTERS_X) row cx sa g) - sa))"
proof -
  have one: "card (insert x sa - sa) = 1" if "x \<notin> sa" for x :: "int \<times> int"
  proof -
    from that have "insert x sa - sa = {x}" by auto
    then show ?thesis by simp
  qed
  show ?thesis
    by (auto simp add: check_columns_concrete one)
qed

lemma step_ped_credits_ok: "credits_ok p \<Longrightarrow> credits_ok (step_ped g p)"
  using check_columns_credit [of "p_row p" "rect_centerx (p_rect (step_ped g p))" "scored_at_indices p" g]
  unfolding credits_ok_def step_ped_row step_ped_scored [of g p] by auto

lemma handle_event_pedestrians:
  "pedestrians (handle_event dd ev g) =
     (if game_over g \<and> ev = KEYDOWN K_r then [] else pedestrians g)"
proof (cases ev)
  case (KEYDOWN k)
  show ?thesis
  proof (cases "game_over g")
    case True
    then show ?thesis unfolding KEYDOWN by (simp add: handle_event_simps(3) reset_game_def)
  next
    case False
    then show ?thesis unfolding KEYDOWN by (cases k) (simp_all add: handle_event_simps)
  qed
qed (simp_all add: handle_event_simps)

lemma handle_events_pedestrians:
  "list_all P (pedestrians g) \<Longrightarrow> list_all P (pedestrians (handle_events evs g))"
proof (induction evs arbitrary: g)
  case Nil
  then show ?case by simp
next
  case (Cons a evs)
  obtain ev dd where a: "a = (ev, dd)" by (cases a)
  from Cons.prems have "list_all P (pedestrians (handle_event dd ev g))"
    by (simp add: handle_event_pedestrians)
  then have "list_all P (pedestrians (handle_events evs (handle_event dd ev g)))"
    by (rule Cons.IH)
  then show ?case by (simp add: a)
qed

lemma game_logic_pedestrians:
  assumes "list_all P (pedestrians g)"
    and new: "\<And>row_draw. P (create_pedestrian row_draw)"
    and step: "\<And>g' p. P p \<Longrightarrow> P (step_ped g' p)"
  shows "list_all P (pedestrians (game_logic r d g))"
proof (cases "game_over g")
  case True
  with assms(1) show ?thesis by (simp add: game_logic_over)
next
  case False
  have "list_all P (pedestrians (spawn_pedestrians r d g))"
    using assms(1) new by (simp add: spawn_pedestrians_def Let_def)
  then have "list_all P (map (step_ped g) (pedestrians (spawn_pedestrians r d g)))"
    by (simp add: list_all_iff step)
  then show ?thesis
    using game_logic_running [OF False, of r d] by (auto simp add: list_all_iff)
qed

text \<open>
  A property of pedestrians that holds at creation and is kept by a pass of the loop body
  holds for every pedestrian of every state the main loop reaches.
\<close>

lemma main_loop_pedestrians:
  assumes "list_all P (pedestrians g)"
    and new: "\<And>row_draw. P (create_pedestrian row_draw)"
    and step: "\<And>g' p. P p \<Longrightarrow> P (step_ped g' p)"
  shows "list_all P (pedestrians (main_loop frames g))"
  using assms(1)
proof (induction frames arbitrary: g)
  case Nil
  then show ?case by simp
next
  case (Cons a frames)
  obtain evs r d where a: "a = (evs, r, d)" by (cases a)
  from Cons.prems have "list_all P (pedestrians (handle_events evs g))"
    by (rule handle_events_pedestrians)
  then have "list_all P (pedestrians (frame evs r d g))"
    unfolding frame_def using new step by (rule game_logic_pedestrians)
  then have "list_all P (pedestrians (main_loop frames (frame evs r d g)))"
    by (rule Cons.IH)
  with Cons.prems show ?case by (simp add: a)
qed

lemma main_loop_credits:
  "list_all credits_ok (pedestrians (main_loop frames (initial_game d0 d1)))"
proof (rule main_loop_pedestrians)
  show "list_all credits_ok (pedestrians (initial_game d0 d1))"
    by (simp add: initial_game_def reset_game_def)
  show "credits_ok (create_pedestrian row_draw)" for row_draw
    by (simp add: credits_ok_def create_pedestrian_def Let_def)
  show "credits_ok p \<Longrightarrow> credits_ok (step_ped g' p)" for g' p
    by (rule step_ped_credits_ok)
qed

text \<open>
  Every pedestrian of every reachable state has the standard width, which the theorems
  about the covered pass and about the bonus assume.
\<close>

lemma main_loop_widths:
  "list_all (\<lambda>p. rect_w (p_rect p) = PEDESTRIAN_WIDTH)
     (pedestrians (main_loop frames (initial_game d0 d1)))"
proof (rule main_loop_pedestrians)
  show "list_all (\<lambda>p. rect_w (p_rect p) = PEDESTRIAN_WIDTH) (pedestrians (initial_game d0 d1))"
    by (simp add: initial_game_def reset_game_def)
  show "rect_w (p_rect (create_pedestrian row_draw)) = PEDESTRIAN_WIDTH" for row_draw
    by (simp add: create_pedestrian_def Let_def Rect_def int_cast_def PEDESTRIAN_WIDTH_def)
  show "rect_w (p_rect p) = PEDESTRIAN_WIDTH \<Longrightarrow> rect_w (p_rect (step_ped g' p)) = PEDESTRIAN_WIDTH"
    for g' p
    by (simp add: step_ped_width)
qed

section \<open>Restart\<close>

text \<open>
  Claim C4. Pressing \<^verbatim>\<open>r\<close> while the game is over sets the score to 0, the lives to 3,
  the player to row 0 and column 0, empties the pedestrian list, sets the spawn timer to
  0, stores the delay drawn from the inclusive range of the two spawn-rate constants and
  leaves the game running. Pressing \<^verbatim>\<open>r\<close> while the game is running changes nothing.
\<close>

theorem restart_resets_game:
  "(game_over g \<and> valid_delay_draw d \<longrightarrow>
      (let g' = handle_event d (KEYDOWN K_r) g in
         score g' = 0 \<and> lives g' = 3 \<and> player_row_index g' = 0 \<and> player_col_index g' = 0 \<and>
         pedestrians g' = [] \<and> spawn_timer g' = 0 \<and> next_spawn_delay g' = d \<and>
         PEDESTRIAN_SPAWN_RATE_MIN \<le> next_spawn_delay g' \<and>
         next_spawn_delay g' \<le> PEDESTRIAN_SPAWN_RATE_MAX \<and>
         \<not> game_over g' \<and> running g' = running g)) \<and>
   (\<not> game_over g \<longrightarrow> handle_event d (KEYDOWN K_r) g = g)"
  by (simp add: handle_event_def reset_game_def valid_delay_draw_def Let_def)

theorem restart_resets_game_witness:
  "game_over lost_game \<and> valid_delay_draw 250 \<and>
   handle_event 250 (KEYDOWN K_r) lost_game =
     \<lparr>score = 0, lives = 3, player_row_index = 0, player_col_index = 0, pedestrians = [],
      game_over = False, spawn_timer = 0, next_spawn_delay = 250, running = True\<rparr> \<and>
   \<not> game_over (handle_event 250 (KEYDOWN K_r) lost_game) \<and>
   handle_event 300 (KEYDOWN K_r) (handle_event 250 (KEYDOWN K_r) lost_game) =
     handle_event 250 (KEYDOWN K_r) lost_game"
  using restart_resets_game [of lost_game 250]
        restart_resets_game [of "handle_event 250 (KEYDOWN K_r) lost_game" 300]
  by (simp add: lost_game_def valid_delay_draw_def PEDESTRIAN_SPAWN_RATE_MIN_def
        PEDESTRIAN_SPAWN_RATE_MAX_def handle_event_def reset_game_def Let_def)

section \<open>Player moves\<close>

text \<open>
  Claim C7. While the game is running, a left or right key sets the column index to the
  old index minus or plus one modulo 2 and keeps the row index, an up or down key does
  the same to the row index, and after any sequence of move keys from a state whose
  indices are 0 or 1 the indices are 0 or 1 again and the game is still running.
\<close>

theorem player_moves_wrap:
  assumes "\<not> game_over g"
  shows "(k = K_LEFT \<or> k = K_a \<longrightarrow>
            player_col_index (handle_event d (KEYDOWN k) g) = (player_col_index g - 1) mod 2 \<and>
            player_row_index (handle_event d (KEYDOWN k) g) = player_row_index g) \<and>
         (k = K_RIGHT \<or> k = K_d \<longrightarrow>
            player_col_index (handle_event d (KEYDOWN k) g) = (player_col_index g + 1) mod 2 \<and>
            player_row_index (handle_event d (KEYDOWN k) g) = player_row_index g) \<and>
         (k = K_UP \<or> k = K_w \<longrightarrow>
            player_row_index (handle_event d (KEYDOWN k) g) = (player_row_index g - 1) mod 2 \<and>
            player_col_index (handle_event d (KEYDOWN k) g) = player_col_index g) \<and>
         (k = K_DOWN \<or> k = K_s \<longrightarrow>
            player_row_index (handle_event d (KEYDOWN k) g) = (player_row_index g + 1) mod 2 \<and>
            player_col_index (handle_event d (KEYDOWN k) g) = player_col_index g) \<and>
         (indices_in_range g \<and> move_events evs \<longrightarrow>
            indices_in_range (handle_events evs g) \<and> \<not> game_over (handle_events evs g))"
proof -
  have seq: "indices_in_range g \<longrightarrow>
      indices_in_range (handle_events evs g) \<and> \<not> game_over (handle_events evs g)"
    using assms by (simp add: handle_events_indices handle_events_running_state)
  have keys: "handle_event d (KEYDOWN k) g =
      (case k of
         K_LEFT \<Rightarrow> g\<lparr>player_col_index := (player_col_index g - 1) mod 2\<rparr>
       | K_a \<Rightarrow> g\<lparr>player_col_index := (player_col_index g - 1) mod 2\<rparr>
       | K_RIGHT \<Rightarrow> g\<lparr>player_col_index := (player_col_index g + 1) mod 2\<rparr>
       | K_d \<Rightarrow> g\<lparr>player_col_index := (player_col_index g + 1) mod 2\<rparr>
       | K_UP \<Rightarrow> g\<lparr>player_row_index := (player_row_index g - 1) mod 2\<rparr>
       | K_w \<Rightarrow> g\<lparr>player_row_index := (player_row_index g - 1) mod 2\<rparr>
       | K_DOWN \<Rightarrow> g\<lparr>player_row_index := (player_row_index g + 1) mod 2\<rparr>
       | K_s \<Rightarrow> g\<lparr>player_row_index := (player_row_index g + 1) mod 2\<rparr>
       | _ \<Rightarrow> g)"
    using assms by (cases k) (simp_all add: handle_event_simps)
  show ?thesis
    unfolding keys using seq by (cases k) simp_all
qed

theorem player_moves_wrap_witness:
  "\<not> game_over fresh_game \<and> indices_in_range fresh_game \<and>
   move_events [(KEYDOWN K_LEFT, 0), (KEYDOWN K_w, 0), (KEYDOWN K_d, 0)] \<and>
   player_col_index (handle_event 0 (KEYDOWN K_LEFT) fresh_game) = 1 \<and>
   player_row_index (handle_event 0 (KEYDOWN K_LEFT) fresh_game) = 0 \<and>
   indices_in_range
     (handle_events [(KEYDOWN K_LEFT, 0), (KEYDOWN K_w, 0), (KEYDOWN K_d, 0)] fresh_game) \<and>
   \<not> game_over
     (handle_events [(KEYDOWN K_LEFT, 0), (KEYDOWN K_w, 0), (KEYDOWN K_d, 0)] fresh_game)"
  using player_moves_wrap [of fresh_game K_LEFT 0
          "[(KEYDOWN K_LEFT, 0), (KEYDOWN K_w, 0), (KEYDOWN K_d, 0)]"]
  by (simp add: fresh_game_def initial_game_def reset_game_def indices_in_range_def
        is_move_key_def move_events_def)

section \<open>Covered pass\<close>

text \<open>
  Claim C1. Take a pedestrian of the standard width whose centre, after the move of the
  tick, is inside the collision zone of a column, with the player on the pedestrian's row
  and on that column. If the centre has reached the manhole's centre and the slot is not
  yet in the pedestrian's set, the score goes up by exactly 1 and the slot is added to the
  set. If the slot is already in the set, or the centre is still before the manhole's
  centre, the score and the set stay as they are. In every case the lives stay as they
  are, the pedestrian is not marked for removal, and it is still in the list after the
  tick.
\<close>

theorem covered_pass_scores_once:
  assumes "rect_w (p_rect p) = PEDESTRIAN_WIDTH"
    and "(c, manhole_x) \<in> set (py_enumerate MANHOLE_CENTERS_X)"
    and "in_zone manhole_x (rect_centerx (p_rect (step_ped g p)))"
    and "p_row p = player_row_index g" and "c = player_col_index g"
  shows "(manhole_x \<le> of_int (rect_centerx (p_rect (step_ped g p))) \<and>
            (p_row p, c) \<notin> scored_at_indices p \<longrightarrow>
            score (fst (snd (process_pedestrian i p g rm))) = score g + 1 \<and>
            scored_at_indices (step_ped g p) = insert (p_row p, c) (scored_at_indices p)) \<and>
         ((p_row p, c) \<in> scored_at_indices p \<or>
            of_int (rect_centerx (p_rect (step_ped g p))) < manhole_x \<longrightarrow>
            score (fst (snd (process_pedestrian i p g rm))) = score g \<and>
            scored_at_indices (step_ped g p) = scored_at_indices p) \<and>
         lives (fst (snd (process_pedestrian i p g rm))) = lives g \<and>
         snd (snd (process_pedestrian i p g rm)) = rm \<and>
         fst (process_pedestrian i p g rm) = step_ped g p \<and>
         \<not> gone g (step_ped g p) \<and>
         (\<not> game_over g \<and> p \<in> set (pedestrians g) \<longrightarrow>
            step_ped g p \<in> set (pedestrians (game_logic r d g)))"
proof -
  let ?cx = "rect_centerx (p_rect (step_ped g p))"
  let ?cc = "check_columns (py_enumerate MANHOLE_CENTERS_X) (p_row p) ?cx (scored_at_indices p) g"
  from in_zone_concrete [OF assms(2,3)]
  have zone: "(c = 0 \<and> manhole_x = 240 \<and> 215 < ?cx \<and> ?cx < 265) \<or>
              (c = 1 \<and> manhole_x = 560 \<and> 535 < ?cx \<and> ?cx < 585)" .
  have cc: "?cc =
      (if manhole_x \<le> of_int ?cx \<and> (p_row p, c) \<notin> scored_at_indices p
       then (insert (p_row p, c) (scored_at_indices p), False, g\<lparr>score := score g + 1\<rparr>)
       else (scored_at_indices p, False, g))"
    using zone assms(4,5) by (auto simp add: check_columns_concrete)
  have "rect_left (p_rect (step_ped g p)) = ?cx - 10"
    using assms(1) by (simp add: step_ped_centerx step_ped_left PEDESTRIAN_WIDTH_def)
  with zone have off: "\<not> off_screen (step_ped g p)"
    by (auto simp add: off_screen_def SCREEN_WIDTH_def)
  have "\<not> in_uncovered_zone g (step_ped g p)"
    using zone assms(4,5) by (auto simp add: in_uncovered_zone_concrete Let_def)
  with off have gone: "\<not> gone g (step_ped g p)" by (simp add: gone_def)
  have tick: "step_ped g p \<in> set (pedestrians (game_logic r d g))"
    if "\<not> game_over g" "p \<in> set (pedestrians g)"
  proof -
    from that(2) have "p \<in> set (pedestrians (spawn_pedestrians r d g))"
      by (simp add: spawn_pedestrians_def Let_def)
    then show ?thesis
      using game_logic_running [OF that(1), of r d] gone by simp
  qed
  have sc: "scored_at_indices (step_ped g p) = fst ?cc"
    by (rule step_ped_scored)
  show ?thesis
    unfolding process_pedestrian_parts Let_def sc cc using off gone tick by simp
qed

theorem covered_pass_scores_once_witness:
  "rect_w (p_rect (walker 229 0 {})) = PEDESTRIAN_WIDTH \<and>
   (0, 240) \<in> set (py_enumerate MANHOLE_CENTERS_X) \<and>
   in_zone 240 (rect_centerx (p_rect (step_ped (street_game [walker 229 0 {}]) (walker 229 0 {})))) \<and>
   p_row (walker 229 0 {}) = player_row_index (street_game [walker 229 0 {}]) \<and>
   0 = player_col_index (street_game [walker 229 0 {}]) \<and>
   score (fst (snd (process_pedestrian 0 (walker 229 0 {}) (street_game [walker 229 0 {}]) []))) = 1 \<and>
   scored_at_indices (step_ped (street_game [walker 229 0 {}]) (walker 229 0 {})) = {(0, 0)} \<and>
   lives (fst (snd (process_pedestrian 0 (walker 229 0 {}) (street_game [walker 229 0 {}]) []))) = 3 \<and>
   snd (snd (process_pedestrian 0 (walker 229 0 {}) (street_game [walker 229 0 {}]) [])) = [] \<and>
   step_ped (street_game [walker 229 0 {}]) (walker 229 0 {}) = walker 231 0 {(0, 0)} \<and>
   walker 231 0 {(0, 0)} \<in> set (pedestrians (game_logic 0 300 (street_game [walker 229 0 {}])))"
proof -
  let ?p = "walker 229 0 {}" and ?g = "street_game [walker 229 0 {}]"
  have h1: "rect_w (p_rect ?p) = PEDESTRIAN_WIDTH"
    by (simp add: walker_simps PEDESTRIAN_WIDTH_def)
  have h2: "(0, 240) \<in> set (py_enumerate MANHOLE_CENTERS_X)"
    by (simp add: manhole_columns)
  have h3: "in_zone 240 (rect_centerx (p_rect (step_ped ?g ?p)))"
    by (simp add: step_ped_centerx walker_simps in_zone_def MANHOLE_COLLISION_WIDTH_def)
  have h4: "p_row ?p = player_row_index ?g"
    by (simp add: walker_simps street_game_def fresh_game_simps)
  have h5: "0 = player_col_index ?g"
    by (simp add: street_game_def fresh_game_simps)
  have st: "step_ped ?g ?p = walker 231 0 {(0, 0)}"
    by (simp add: step_ped_concrete check_columns_concrete walker_def rect_centerx_def
          street_game_def fresh_game_simps)
  have mem: "?p \<in> set (pedestrians ?g)" "\<not> game_over ?g" "score ?g = 0" "lives ?g = 3"
    by (simp_all add: street_game_def fresh_game_simps)
  show ?thesis
    using covered_pass_scores_once [OF h1 h2 h3 h4 h5, of 0 "[]" 0 300] h1 h2 h3 h4 h5 mem
    by (simp add: st walker_simps step_ped_centerx)
qed

section \<open>Fall into an uncovered manhole\<close>

text \<open>
  Claim C2. Take a pedestrian whose centre, after the move of the tick, is inside the
  collision zone of a column while the player is not on that row and column. Then the
  lives go down by exactly 1, the score and the pedestrian's set stay as they are, the
  pedestrian's index is appended once to the removal list, the column loop returns at
  that column whatever columns would follow, and the pedestrian is not in the list after
  the tick.
\<close>

theorem uncovered_slot_fall:
  assumes "(c, manhole_x) \<in> set (py_enumerate MANHOLE_CENTERS_X)"
    and "in_zone manhole_x (rect_centerx (p_rect (step_ped g p)))"
    and "\<not> (p_row p = player_row_index g \<and> c = player_col_index g)"
  shows "lives (fst (snd (process_pedestrian i p g rm))) = lives g - 1 \<and>
         score (fst (snd (process_pedestrian i p g rm))) = score g \<and>
         snd (snd (process_pedestrian i p g rm)) = rm @ [i] \<and>
         fst (process_pedestrian i p g rm) = step_ped g p \<and>
         scored_at_indices (step_ped g p) = scored_at_indices p \<and>
         gone g (step_ped g p) \<and>
         (\<forall>rest sa. check_columns ((c, manhole_x) # rest) (p_row p)
                      (rect_centerx (p_rect (step_ped g p))) sa g =
                    (sa, True, g\<lparr>lives := lives g - 1\<rparr>)) \<and>
         (\<not> game_over g \<longrightarrow> step_ped g p \<notin> set (pedestrians (game_logic r d g)))"
proof -
  let ?cx = "rect_centerx (p_rect (step_ped g p))"
  let ?cc = "check_columns (py_enumerate MANHOLE_CENTERS_X) (p_row p) ?cx (scored_at_indices p) g"
  from in_zone_concrete [OF assms(1,2)] assms(3)
  have cc: "?cc = (scored_at_indices p, True, g\<lparr>lives := lives g - 1\<rparr>)"
    by (auto simp add: check_columns_concrete)
  have unc: "in_uncovered_zone g (step_ped g p)"
    unfolding in_uncovered_zone_def using assms by (auto intro!: bexI [of _ "(c, manhole_x)"])
  then have gone: "gone g (step_ped g p)" by (simp add: gone_def)
  have brk: "check_columns ((c, manhole_x) # rest) (p_row p) ?cx sa g =
             (sa, True, g\<lparr>lives := lives g - 1\<rparr>)" for rest sa
    using assms(2,3) by (auto simp add: check_columns_Cons simp del: check_columns.simps)
  have tick: "step_ped g p \<notin> set (pedestrians (game_logic r d g))" if "\<not> game_over g"
    using game_logic_running [OF that, of r d] gone by simp
  have pp: "process_pedestrian i p g rm = (step_ped g p, g\<lparr>lives := lives g - 1\<rparr>, rm @ [i])"
    unfolding process_pedestrian_parts Let_def cc by simp
  have sc: "scored_at_indices (step_ped g p) = scored_at_indices p"
    using step_ped_scored [of g p] cc by simp
  show ?thesis
    unfolding pp using sc gone brk tick by simp
qed

theorem uncovered_slot_fall_witness:
  "(0, 240) \<in> set (py_enumerate MANHOLE_CENTERS_X) \<and>
   in_zone 240 (rect_centerx (p_rect (step_ped (street_game [walker 205 1 {}]) (walker 205 1 {})))) \<and>
   p_row (walker 205 1 {}) \<noteq> player_row_index (street_game [walker 205 1 {}]) \<and>
   lives (fst (snd (process_pedestrian 0 (walker 205 1 {}) (street_game [walker 205 1 {}]) []))) = 2 \<and>
   score (fst (snd (process_pedestrian 0 (walker 205 1 {}) (street_game [walker 205 1 {}]) []))) = 0 \<and>
   snd (snd (process_pedestrian 0 (walker 205 1 {}) (street_game [walker 205 1 {}]) [])) = [0] \<and>
   step_ped (street_game [walker 205 1 {}]) (walker 205 1 {}) = walker 207 1 {} \<and>
   walker 207 1 {} \<notin> set (pedestrians (game_logic 0 300 (street_game [walker 205 1 {}])))"
proof -
  let ?p = "walker 205 1 {}" and ?g = "street_game [walker 205 1 {}]"
  have h1: "(0, 240) \<in> set (py_enumerate MANHOLE_CENTERS_X)"
    by (simp add: manhole_columns)
  have h2: "in_zone 240 (rect_centerx (p_rect (step_ped ?g ?p)))"
    by (simp add: step_ped_centerx walker_simps in_zone_def MANHOLE_COLLISION_WIDTH_def)
  have h3: "\<not> (p_row ?p = player_row_index ?g \<and> 0 = player_col_index ?g)"
    by (simp add: walker_simps street_game_def fresh_game_simps)
  have st: "step_ped ?g ?p = walker 207 1 {}"
    by (simp add: step_ped_concrete check_columns_concrete walker_def rect_centerx_def
          street_game_def fresh_game_simps)
  have mem: "\<not> game_over ?g" "score ?g = 0" "lives ?g = 3"
    "p_row ?p \<noteq> player_row_index ?g"
    by (simp_all add: street_game_def fresh_game_simps walker_simps)
  show ?thesis
    using uncovered_slot_fall [OF h1 h2 h3, of 0 "[]" 0 300] h1 h2 mem
    by (simp add: st)
qed

section \<open>Bonus for leaving the screen\<close>

text \<open>
  Claim C5, as amended. Take a pedestrian of the standard width whose left edge, after
  the move of the tick, is beyond the right boundary of the screen. Then it is in no
  collision zone and does not fall, the score goes up by exactly 5, the lives and the
  pedestrian's set stay as they are, its index is appended once to the removal list, and
  it is not in the list after the tick.
\<close>

theorem offscreen_bonus:
  assumes "rect_w (p_rect p) = PEDESTRIAN_WIDTH"
    and "off_screen (step_ped g p)"
  shows "\<not> in_uncovered_zone g (step_ped g p) \<and>
         score (fst (snd (process_pedestrian i p g rm))) = score g + 5 \<and>
         lives (fst (snd (process_pedestrian i p g rm))) = lives g \<and>
         snd (snd (process_pedestrian i p g rm)) = rm @ [i] \<and>
         fst (process_pedestrian i p g rm) = step_ped g p \<and>
         scored_at_indices (step_ped g p) = scored_at_indices p \<and>
         (\<not> game_over g \<longrightarrow> step_ped g p \<notin> set (pedestrians (game_logic r d g)))"
proof -
  let ?cx = "rect_centerx (p_rect (step_ped g p))"
  let ?cc = "check_columns (py_enumerate MANHOLE_CENTERS_X) (p_row p) ?cx (scored_at_indices p) g"
  have "rect_left (p_rect (step_ped g p)) = ?cx - 10"
    using assms(1) by (simp add: step_ped_centerx step_ped_left PEDESTRIAN_WIDTH_def)
  with assms(2) have far: "810 < ?cx"
    by (simp add: off_screen_def SCREEN_WIDTH_def)
  then have cc: "?cc = (scored_at_indices p, False, g)"
    by (simp add: check_columns_concrete)
  from far have unc: "\<not> in_uncovered_zone g (step_ped g p)"
    by (simp add: in_uncovered_zone_concrete Let_def)
  from assms(2) have gone: "gone g (step_ped g p)" by (simp add: gone_def)
  have tick: "step_ped g p \<notin> set (pedestrians (game_logic r d g))" if "\<not> game_over g"
    using game_logic_running [OF that, of r d] gone by simp
  have sc: "scored_at_indices (step_ped g p) = fst ?cc"
    by (rule step_ped_scored)
  show ?thesis
    unfolding process_pedestrian_parts Let_def sc cc using assms(2) unc tick by simp
qed

theorem offscreen_bonus_witness:
  "rect_w (p_rect (walker 800 1 {(1, 1)})) = PEDESTRIAN_WIDTH \<and>
   off_screen (step_ped (street_game [walker 800 1 {(1, 1)}]) (walker 800 1 {(1, 1)})) \<and>
   score (fst (snd (process_pedestrian 0 (walker 800 1 {(1, 1)}) (street_game [walker 800 1 {(1, 1)}]) []))) = 5 \<and>
   lives (fst (snd (process_pedestrian 0 (walker 800 1 {(1, 1)}) (street_game [walker 800 1 {(1, 1)}]) []))) = 3 \<and>
   snd (snd (process_pedestrian 0 (walker 800 1 {(1, 1)}) (street_game [walker 800 1 {(1, 1)}]) [])) = [0] \<and>
   step_ped (street_game [walker 800 1 {(1, 1)}]) (walker 800 1 {(1, 1)}) = walker 802 1 {(1, 1)} \<and>
   walker 802 1 {(1, 1)} \<notin> set (pedestrians (game_logic 0 300 (street_game [walker 800 1 {(1, 1)}])))"
proof -
  let ?p = "walker 800 1 {(1, 1)}" and ?g = "street_game [walker 800 1 {(1, 1)}]"
  have h1: "rect_w (p_rect ?p) = PEDESTRIAN_WIDTH"
    by (simp add: walker_simps PEDESTRIAN_WIDTH_def)
  have h2: "off_screen (step_ped ?g ?p)"
    by (simp add: off_screen_def step_ped_left walker_simps SCREEN_WIDTH_def)
  have st: "step_ped ?g ?p = walker 802 1 {(1, 1)}"
    by (simp add: step_ped_walker check_columns_concrete) (simp add: walker_def)
  show ?thesis
    using offscreen_bonus [OF h1 h2, of 0 "[]" 0 300] h1 h2
    by (simp add: st street_game_simps)
qed

text \<open>
  The claim as it is worded, with the leading edge, fails: a pedestrian at \<open>x = 785\<close> is
  moved to \<open>x = 787\<close>, its right edge \<open>807\<close> has passed the boundary \<open>800\<close> and it
  does not fall, but the score stays and the pedestrian stays in the list.
\<close>

theorem leading_edge_counterexample:
  "SCREEN_WIDTH < leading_edge (step_ped (street_game [walker 785 0 {}]) (walker 785 0 {})) \<and>
   \<not> in_uncovered_zone (street_game [walker 785 0 {}])
        (step_ped (street_game [walker 785 0 {}]) (walker 785 0 {})) \<and>
   score (fst (snd (process_pedestrian 0 (walker 785 0 {}) (street_game [walker 785 0 {}]) []))) =
     score (street_game [walker 785 0 {}]) \<and>
   snd (snd (process_pedestrian 0 (walker 785 0 {}) (street_game [walker 785 0 {}]) [])) = [] \<and>
   score (game_logic 0 300 (street_game [walker 785 0 {}])) = score (street_game [walker 785 0 {}]) \<and>
   pedestrians (game_logic 0 300 (street_game [walker 785 0 {}])) =
     [step_ped (street_game [walker 785 0 {}]) (walker 785 0 {})]"
proof -
  let ?p = "walker 785 0 {}" and ?g = "street_game [walker 785 0 {}]"
  have st: "step_ped ?g ?p = walker 787 0 {}"
    by (simp add: step_ped_walker check_columns_concrete) (simp add: walker_def)
  have cc: "check_columns (py_enumerate MANHOLE_CENTERS_X) 0 797 {} ?g = ({}, False, ?g)"
    by (simp add: check_columns_concrete)
  have off: "\<not> off_screen (walker 787 0 {})"
    by (simp add: off_screen_def rect_left_def walker_simps SCREEN_WIDTH_def)
  have unc: "\<not> in_uncovered_zone ?g (walker 787 0 {})"
    by (simp add: in_uncovered_zone_concrete Let_def rect_centerx_def walker_simps)
  have le: "SCREEN_WIDTH < leading_edge (walker 787 0 {})"
    by (simp add: leading_edge_def rect_right_def walker_simps SCREEN_WIDTH_def)
  have pp: "process_pedestrian 0 ?p ?g [] = (walker 787 0 {}, ?g, [])"
    unfolding process_pedestrian_parts Let_def st
    using cc off by (simp add: rect_centerx_def walker_simps)
  have sp: "spawn_pedestrians 0 300 ?g = ?g\<lparr>spawn_timer := 1\<rparr>"
    by (simp add: spawn_pedestrians_def Let_def street_game_simps)
  have res: "process_pedestrians 0 [?p] ?g [] = ([walker 787 0 {}], ?g, [])"
    by (simp add: pp)
  have idx: "player_row_index (?g\<lparr>spawn_timer := 1\<rparr>) = player_row_index ?g"
    "player_col_index (?g\<lparr>spawn_timer := 1\<rparr>) = player_col_index ?g"
    by simp_all
  have gl: "pedestrians (game_logic 0 300 ?g) = [walker 787 0 {}]"
    using game_logic_running [of ?g 0 300] off unc
    by (simp add: street_game_simps sp st gone_def)
  have pp1: "process_pedestrian 0 ?p (?g\<lparr>spawn_timer := 1\<rparr>) [] =
             (walker 787 0 {}, ?g\<lparr>spawn_timer := 1\<rparr>, [])"
    unfolding process_pedestrian_parts Let_def step_ped_indep [OF idx] st
    using off by (simp add: check_columns_concrete rect_centerx_def walker_simps)
  have gs: "score (game_logic 0 300 ?g) = score ?g"
    unfolding game_logic_def sp
    by (simp add: street_game_simps pp1 Let_def)
  show ?thesis
    unfolding st pp using le unc gl gs by simp
qed

section \<open>Several falls in one tick\<close>

text \<open>
  Claim C10. While the game is running, the lives after the tick are the lives before
  minus the number of pedestrians that fell in the tick, whatever the lives were, so
  they can become negative; and the game is over after the tick exactly when the lives
  after the tick are at most 0. The check is made once, after all pedestrians.
\<close>

theorem falls_counted_before_game_over_check:
  assumes "\<not> game_over g"
  shows "lives (game_logic r d g) =
           lives g - int (length (filter (in_uncovered_zone g)
                                    (map (step_ped g) (pedestrians (spawn_pedestrians r d g))))) \<and>
         game_over (game_logic r d g) = (lives (game_logic r d g) \<le> 0)"
  using game_logic_running [OF assms, of r d] by simp

theorem falls_counted_before_game_over_check_witness:
  "\<not> game_over ((street_game [walker 205 1 {}, walker 525 0 {}])\<lparr>lives := 1\<rparr>) \<and>
   lives ((street_game [walker 205 1 {}, walker 525 0 {}])\<lparr>lives := 1\<rparr>) = 1 \<and>
   length (filter (in_uncovered_zone ((street_game [walker 205 1 {}, walker 525 0 {}])\<lparr>lives := 1\<rparr>))
      (map (step_ped ((street_game [walker 205 1 {}, walker 525 0 {}])\<lparr>lives := 1\<rparr>))
         (pedestrians (spawn_pedestrians 0 300
            ((street_game [walker 205 1 {}, walker 525 0 {}])\<lparr>lives := 1\<rparr>))))) = 2 \<and>
   lives (game_logic 0 300 ((street_game [walker 205 1 {}, walker 525 0 {}])\<lparr>lives := 1\<rparr>)) = - 1 \<and>
   game_over (game_logic 0 300 ((street_game [walker 205 1 {}, walker 525 0 {}])\<lparr>lives := 1\<rparr>))"
proof -
  let ?g = "(street_game [walker 205 1 {}, walker 525 0 {}])\<lparr>lives := 1\<rparr>"
  have h: "\<not> game_over ?g" by (simp add: street_game_simps)
  have sp: "pedestrians (spawn_pedestrians 0 300 ?g) = [walker 205 1 {}, walker 525 0 {}]"
    by (simp add: spawn_pedestrians_def Let_def street_game_simps)
  have u1: "in_uncovered_zone ?g (step_ped ?g (walker 205 1 {}))"
    by (simp add: in_uncovered_zone_concrete Let_def step_ped_centerx walker_simps street_game_simps)
  have u2: "in_uncovered_zone ?g (step_ped ?g (walker 525 0 {}))"
    by (simp add: in_uncovered_zone_concrete Let_def step_ped_centerx walker_simps street_game_simps)
  show ?thesis
    using falls_counted_before_game_over_check [OF h, of 0 300] h
    by (simp add: sp u1 u2)
qed

section \<open>Removal at most once\<close>

text \<open>
  Claim C9. A pedestrian that falls takes exactly one life, gets no score in that pass
  (so no bonus of 5) and has its index appended once; the loop body appends the index of
  a pedestrian at most once. While the game is running, the list of marked indices is
  strictly increasing, so it has no duplicates, every marked index is inside the list of
  pedestrians, the removal pass shortens the list by exactly the number of marked
  indices, so every deletion is inside the list and removes one pedestrian, and what
  remains are the pedestrians that did not fall and did not leave the screen.
\<close>

theorem single_removal_per_tick:
  "(in_uncovered_zone g (step_ped g p) \<longrightarrow>
      lives (fst (snd (process_pedestrian i p g rm))) = lives g - 1 \<and>
      score (fst (snd (process_pedestrian i p g rm))) = score g \<and>
      snd (snd (process_pedestrian i p g rm)) = rm @ [i]) \<and>
   (snd (snd (process_pedestrian i p g rm)) = rm \<or>
    snd (snd (process_pedestrian i p g rm)) = rm @ [i]) \<and>
   (\<not> game_over g \<longrightarrow>
      (let res = process_pedestrians 0 (pedestrians (spawn_pedestrians r d g))
                   (spawn_pedestrians r d g) [];
           peds = fst res; marks = snd (snd res)
       in distinct marks \<and> sorted marks \<and> list_all (\<lambda>j. j < length peds) marks \<and>
          length (remove_pedestrians marks peds) = length peds - length marks \<and>
          remove_pedestrians marks peds = filter (\<lambda>q. \<not> gone g q) peds \<and>
          pedestrians (game_logic r d g) = remove_pedestrians marks peds))"
proof -
  let ?cc = "check_columns (py_enumerate MANHOLE_CENTERS_X) (p_row p)
               (rect_centerx (p_rect (step_ped g p))) (scored_at_indices p) g"
  have fell: "fst (snd ?cc) = in_uncovered_zone g (step_ped g p)"
    by (simp add: check_columns_fell in_uncovered_zone_def)
  have lv: "lives (snd (snd ?cc)) = lives g - (if fst (snd ?cc) then 1 else 0)"
    by (rule check_columns_lives)
  have sc: "fst (snd ?cc) \<Longrightarrow> score (snd (snd ?cc)) = score g"
    by (rule check_columns_fell_score)
  have A: "in_uncovered_zone g (step_ped g p) \<longrightarrow>
      lives (fst (snd (process_pedestrian i p g rm))) = lives g - 1 \<and>
      score (fst (snd (process_pedestrian i p g rm))) = score g \<and>
      snd (snd (process_pedestrian i p g rm)) = rm @ [i]"
    unfolding process_pedestrian_parts Let_def using fell lv sc by simp
  have B: "snd (snd (process_pedestrian i p g rm)) = rm \<or>
           snd (snd (process_pedestrian i p g rm)) = rm @ [i]"
    by (simp add: process_pedestrian_marks)
  have C: "let res = process_pedestrians 0 (pedestrians (spawn_pedestrians r d g))
                   (spawn_pedestrians r d g) [];
           peds = fst res; marks = snd (snd res)
       in distinct marks \<and> sorted marks \<and> list_all (\<lambda>j. j < length peds) marks \<and>
          length (remove_pedestrians marks peds) = length peds - length marks \<and>
          remove_pedestrians marks peds = filter (\<lambda>q. \<not> gone g q) peds \<and>
          pedestrians (game_logic r d g) = remove_pedestrians marks peds"
    if run: "\<not> game_over g"
  proof -
    define g1 where "g1 = spawn_pedestrians r d g"
    define res where "res = process_pedestrians 0 (pedestrians g1) g1 []"
    define peds where "peds = fst res"
    define marks where "marks = snd (snd res)"
    have len: "length peds = length (pedestrians g1)"
      by (simp add: peds_def res_def process_pedestrians_fst)
    have "sorted_wrt (<) marks \<and> (\<forall>j \<in> set marks. j < 0 + length (pedestrians g1))"
      unfolding marks_def res_def by (rule process_pedestrians_marks_sorted) simp_all
    then have srt: "sorted_wrt (<) marks" and bnd: "\<forall>j \<in> set marks. j < length peds"
      by (simp_all add: len)
    from srt have dist: "distinct marks" and sorted: "sorted marks"
      by (simp_all add: strict_sorted_iff)
    have leneq: "length (remove_pedestrians marks peds) = length peds - length marks"
      using dist bnd by (rule length_remove_pedestrians)
    have gl: "pedestrians (game_logic r d g) = remove_pedestrians marks peds"
      unfolding game_logic_unfold [OF run] g1_def [symmetric] Let_def res_def [symmetric]
        peds_def [symmetric] marks_def [symmetric]
      by simp
    have filt: "remove_pedestrians marks peds = filter (\<lambda>q. \<not> gone g q) peds"
      using game_logic_running [OF run, of r d] gl
      by (simp add: peds_def res_def g1_def process_pedestrians_fst
            step_ped_indep [of "spawn_pedestrians r d g" g] spawn_pedestrians_frame cong: map_cong)
    show ?thesis
      unfolding g1_def [symmetric] res_def [symmetric] Let_def peds_def [symmetric] marks_def [symmetric]
      using dist sorted bnd leneq filt gl by (simp add: list_all_iff)
  qed
  from A B C show ?thesis by blast
qed

theorem single_removal_per_tick_witness:
  "in_uncovered_zone (street_game [walker 205 1 {}, walker 800 0 {}, walker 100 0 {}])
     (step_ped (street_game [walker 205 1 {}, walker 800 0 {}, walker 100 0 {}]) (walker 205 1 {})) \<and>
   \<not> game_over (street_game [walker 205 1 {}, walker 800 0 {}, walker 100 0 {}]) \<and>
   lives (fst (snd (process_pedestrian 0 (walker 205 1 {})
      (street_game [walker 205 1 {}, walker 800 0 {}, walker 100 0 {}]) []))) = 2 \<and>
   score (fst (snd (process_pedestrian 0 (walker 205 1 {})
      (street_game [walker 205 1 {}, walker 800 0 {}, walker 100 0 {}]) []))) = 0 \<and>
   snd (snd (process_pedestrian 0 (walker 205 1 {})
      (street_game [walker 205 1 {}, walker 800 0 {}, walker 100 0 {}]) [])) = [0] \<and>
   pedestrians (game_logic 0 300 (street_game [walker 205 1 {}, walker 800 0 {}, walker 100 0 {}])) =
     [walker 102 0 {}] \<and>
   length (snd (snd (process_pedestrians 0
      (pedestrians (spawn_pedestrians 0 300
         (street_game [walker 205 1 {}, walker 800 0 {}, walker 100 0 {}])))
      (spawn_pedestrians 0 300 (street_game [walker 205 1 {}, walker 800 0 {}, walker 100 0 {}]))
      []))) = 2"
proof -
  let ?g = "street_game [walker 205 1 {}, walker 800 0 {}, walker 100 0 {}]"
  have h1: "in_uncovered_zone ?g (step_ped ?g (walker 205 1 {}))"
    by (simp add: in_uncovered_zone_concrete Let_def step_ped_centerx walker_simps street_game_simps)
  have h2: "\<not> game_over ?g" by (simp add: street_game_simps)
  have sp: "pedestrians (spawn_pedestrians 0 300 ?g) = [walker 205 1 {}, walker 800 0 {}, walker 100 0 {}]"
    by (simp add: spawn_pedestrians_def Let_def street_game_simps)
  have st: "step_ped ?g (walker 205 1 {}) = walker 207 1 {}"
    "step_ped ?g (walker 800 0 {}) = walker 802 0 {}"
    "step_ped ?g (walker 100 0 {}) = walker 102 0 {}"
    by (simp_all add: step_ped_walker check_columns_concrete) (simp_all add: walker_def)
  have g1: "gone ?g (walker 207 1 {})"
    using h1 by (simp add: gone_def st)
  have g2: "gone ?g (walker 802 0 {})"
    by (simp add: gone_def off_screen_def rect_left_def walker_simps SCREEN_WIDTH_def)
  have g3: "\<not> gone ?g (walker 102 0 {})"
    by (simp add: gone_def off_screen_def rect_left_def walker_simps SCREEN_WIDTH_def
          in_uncovered_zone_concrete Let_def rect_centerx_def)
  have peds: "pedestrians (game_logic 0 300 ?g) = [walker 102 0 {}]"
    using game_logic_running [OF h2, of 0 300] by (simp add: sp st g1 g2 g3)
  have len: "length (fst (process_pedestrians 0 (pedestrians (spawn_pedestrians 0 300 ?g))
                 (spawn_pedestrians 0 300 ?g) [])) = 3"
    unfolding process_pedestrians_fst by (simp add: sp)
  let ?res = "process_pedestrians 0 (pedestrians (spawn_pedestrians 0 300 ?g))
                 (spawn_pedestrians 0 300 ?g) []"
  note inst = single_removal_per_tick [of ?g "walker 205 1 {}" 0 "[]" 0 300]
  from inst h1 have A: "lives (fst (snd (process_pedestrian 0 (walker 205 1 {}) ?g []))) = lives ?g - 1"
    "score (fst (snd (process_pedestrian 0 (walker 205 1 {}) ?g []))) = score ?g"
    "snd (snd (process_pedestrian 0 (walker 205 1 {}) ?g [])) = [] @ [0]"
    by simp_all
  from inst [THEN conjunct2, THEN conjunct2, THEN mp, OF h2]
  have "length (remove_pedestrians (snd (snd ?res)) (fst ?res)) =
        length (fst ?res) - length (snd (snd ?res))"
    and "pedestrians (game_logic 0 300 ?g) = remove_pedestrians (snd (snd ?res)) (fst ?res)"
    unfolding Let_def by blast+
  with peds len have "1 = 3 - length (snd (snd ?res))" by simp
  then have B: "length (snd (snd ?res)) = 2" by arith
  show ?thesis
    using A B h1 h2 peds by (simp add: street_game_simps)
qed

section \<open>The two states of the game\<close>

text \<open>
  Claim C3. While the game is running, the game logic of a tick ends in game over
  exactly when the lives after the tick are at most 0, and no event ends the game. While
  the game is over, the game logic changes nothing (no spawn, no move, no collision, no
  score), the restart key resets the game and makes it run again, and any other event
  changes nothing but the flag that ends the program at a quit event; so a frame without
  the restart key leaves the game over and every game variable as it was.
\<close>

theorem two_state_machine:
  "(\<not> game_over g \<longrightarrow>
      game_over (game_logic r d g) = (lives (game_logic r d g) \<le> 0) \<and>
      \<not> game_over (handle_event dd ev g)) \<and>
   (game_over g \<longrightarrow>
      game_logic r d g = g \<and>
      handle_event dd (KEYDOWN K_r) g = reset_game dd g \<and>
      \<not> game_over (handle_event dd (KEYDOWN K_r) g)) \<and>
   (game_over g \<and> ev \<noteq> KEYDOWN K_r \<longrightarrow>
      handle_event dd ev g = (if ev = QUIT then g\<lparr>running := False\<rparr> else g) \<and>
      game_over (handle_event dd ev g)) \<and>
   (game_over g \<and> no_restart evs \<longrightarrow>
      frame evs r d g = g\<lparr>running := running (frame evs r d g)\<rparr> \<and>
      game_over (frame evs r d g))"
proof -
  have A: "game_over (game_logic r d g) = (lives (game_logic r d g) \<le> 0)" if "\<not> game_over g"
    using game_logic_running [OF that, of r d] by simp
  have B: "\<not> game_over (handle_event dd ev g)" if "\<not> game_over g"
    using that by (simp add: handle_event_game_over)
  have C: "handle_event dd (KEYDOWN K_r) g = reset_game dd g" if "game_over g"
    using that by (simp add: handle_event_simps(3))
  have D: "\<not> game_over (handle_event dd (KEYDOWN K_r) g)"
    by (simp add: handle_event_game_over)
  have E: "handle_event dd ev g = (if ev = QUIT then g\<lparr>running := False\<rparr> else g)"
    if "game_over g" "ev \<noteq> KEYDOWN K_r"
    using that by (rule handle_event_over)
  have F: "game_over (handle_event dd ev g)" if "game_over g" "ev \<noteq> KEYDOWN K_r"
    using that by (simp add: handle_event_game_over)
  have G: "frame evs r d g = g\<lparr>running := running (frame evs r d g)\<rparr> \<and> game_over (frame evs r d g)"
    if "game_over g" "no_restart evs"
  proof -
    let ?h = "handle_events evs g"
    have h: "?h = g\<lparr>running := running ?h\<rparr>" using that by (rule handle_events_over)
    then have "game_over ?h = game_over (g\<lparr>running := running ?h\<rparr>)" by simp
    then have over: "game_over ?h" using that(1) by simp
    then have "frame evs r d g = ?h" by (simp add: frame_def game_logic_over)
    with h over show ?thesis by simp
  qed
  from A B C D E F G game_logic_over [of g r d] show ?thesis by blast
qed

theorem two_state_machine_witness:
  "game_over lost_game \<and> no_restart [(KEYDOWN K_LEFT, 0), (QUIT, 0)] \<and>
   game_logic 0 300 lost_game = lost_game \<and>
   handle_event 0 (KEYDOWN K_LEFT) lost_game = lost_game \<and>
   frame [(KEYDOWN K_LEFT, 0), (QUIT, 0)] 0 300 lost_game = lost_game\<lparr>running := False\<rparr> \<and>
   \<not> game_over (handle_event 250 (KEYDOWN K_r) lost_game) \<and>
   \<not> game_over fresh_game \<and>
   \<not> game_over (handle_event 0 (KEYDOWN K_r) fresh_game) \<and>
   game_over (game_logic 0 300 fresh_game) = (lives (game_logic 0 300 fresh_game) \<le> 0)"
proof -
  have h1: "game_over lost_game" by (simp add: lost_game_def)
  have h2: "no_restart [(KEYDOWN K_LEFT, 0), (QUIT, 0)]" by (simp add: no_restart_def)
  have h3: "\<not> game_over fresh_game" by (simp add: fresh_game_simps)
  have fr: "running (frame [(KEYDOWN K_LEFT, 0), (QUIT, 0)] 0 300 lost_game) = False"
    using h1 by (simp add: frame_def handle_event_simps game_logic_def)
  show ?thesis
    using two_state_machine [of lost_game 0 300 0 "KEYDOWN K_LEFT" "[(KEYDOWN K_LEFT, 0), (QUIT, 0)]"]
      two_state_machine [of lost_game 0 300 250 "KEYDOWN K_LEFT" "[]"]
      two_state_machine [of fresh_game 0 300 0 "KEYDOWN K_r" "[]"] h1 h2 h3 fr
    by (simp add: reset_game_def)
qed

section \<open>Spawning\<close>

text \<open>
  Claim C8. The spawn timer goes up by one in every tick of the running game. In a tick
  where the raised timer is still below the delay, nothing else changes: no pedestrian
  is created. In the tick where the raised timer reaches the delay, exactly one
  pedestrian is appended, with the drawn row, 0 or 1, an empty set of credited slots and
  a rectangle of the standard size whose right edge is at \<open>x = 0\<close>, so all of it is left
  of the screen, and whose vertical centre is the centre of the row's path down to the
  truncation to a whole pixel; the timer is 0 again and the new delay is the drawn one,
  between the two spawn-rate constants. When the game is over, the tick changes nothing.
\<close>

theorem spawn_tick:
  "(spawn_timer g + 1 < next_spawn_delay g \<longrightarrow>
      spawn_pedestrians r d g = g\<lparr>spawn_timer := spawn_timer g + 1\<rparr>) \<and>
   (next_spawn_delay g \<le> spawn_timer g + 1 \<and> valid_row_draw r \<and> valid_delay_draw d \<longrightarrow>
      spawn_pedestrians r d g =
        g\<lparr>pedestrians := pedestrians g @ [create_pedestrian r], spawn_timer := 0,
          next_spawn_delay := d\<rparr> \<and>
      PEDESTRIAN_SPAWN_RATE_MIN \<le> next_spawn_delay (spawn_pedestrians r d g) \<and>
      next_spawn_delay (spawn_pedestrians r d g) \<le> PEDESTRIAN_SPAWN_RATE_MAX \<and>
      p_row (create_pedestrian r) = r \<and> (r = 0 \<or> r = 1) \<and>
      scored_at_indices (create_pedestrian r) = {} \<and>
      rect_x (p_rect (create_pedestrian r)) = - PEDESTRIAN_WIDTH \<and>
      rect_w (p_rect (create_pedestrian r)) = PEDESTRIAN_WIDTH \<and>
      rect_h (p_rect (create_pedestrian r)) = PEDESTRIAN_HEIGHT \<and>
      rect_right (p_rect (create_pedestrian r)) \<le> 0 \<and>
      of_int (rect_y (p_rect (create_pedestrian r))) + of_int PEDESTRIAN_HEIGHT / 2
        \<le> PATH_CENTERS_Y ! nat r \<and>
      PATH_CENTERS_Y ! nat r
        < of_int (rect_y (p_rect (create_pedestrian r))) + of_int PEDESTRIAN_HEIGHT / 2 + 1) \<and>
   (\<not> game_over g \<longrightarrow>
      spawn_timer (game_logic r d g) = spawn_timer (spawn_pedestrians r d g) \<and>
      next_spawn_delay (game_logic r d g) = next_spawn_delay (spawn_pedestrians r d g) \<and>
      pedestrians (game_logic r d g) =
        filter (\<lambda>p. \<not> gone g p) (map (step_ped g) (pedestrians (spawn_pedestrians r d g)))) \<and>
   (game_over g \<longrightarrow> game_logic r d g = g)"
proof -
  have A: "spawn_pedestrians r d g = g\<lparr>spawn_timer := spawn_timer g + 1\<rparr>"
    if "spawn_timer g + 1 < next_spawn_delay g"
    using that by (simp add: spawn_pedestrians_def Let_def)
  have B: "spawn_pedestrians r d g =
        g\<lparr>pedestrians := pedestrians g @ [create_pedestrian r], spawn_timer := 0,
          next_spawn_delay := d\<rparr>"
    if "next_spawn_delay g \<le> spawn_timer g + 1"
    using that by (simp add: spawn_pedestrians_def Let_def)
  have C: "p_row (create_pedestrian r) = r \<and> (r = 0 \<or> r = 1) \<and>
      scored_at_indices (create_pedestrian r) = {} \<and>
      rect_x (p_rect (create_pedestrian r)) = - PEDESTRIAN_WIDTH \<and>
      rect_w (p_rect (create_pedestrian r)) = PEDESTRIAN_WIDTH \<and>
      rect_h (p_rect (create_pedestrian r)) = PEDESTRIAN_HEIGHT \<and>
      rect_right (p_rect (create_pedestrian r)) \<le> 0 \<and>
      of_int (rect_y (p_rect (create_pedestrian r))) + of_int PEDESTRIAN_HEIGHT / 2
        \<le> PATH_CENTERS_Y ! nat r \<and>
      PATH_CENTERS_Y ! nat r
        < of_int (rect_y (p_rect (create_pedestrian r))) + of_int PEDESTRIAN_HEIGHT / 2 + 1"
    if "valid_row_draw r"
    using that unfolding create_pedestrian_concrete [OF that] valid_row_draw_def
    by (auto simp add: walker_def rect_right_def PEDESTRIAN_WIDTH_def PEDESTRIAN_HEIGHT_def
          PATH_CENTERS_Y_def SCREEN_HEIGHT_def)
  have D: "PEDESTRIAN_SPAWN_RATE_MIN \<le> next_spawn_delay (spawn_pedestrians r d g) \<and>
      next_spawn_delay (spawn_pedestrians r d g) \<le> PEDESTRIAN_SPAWN_RATE_MAX"
    if "next_spawn_delay g \<le> spawn_timer g + 1" "valid_delay_draw d"
    using that(2) unfolding B [OF that(1)] valid_delay_draw_def by simp
  have E: "spawn_timer (game_logic r d g) = spawn_timer (spawn_pedestrians r d g) \<and>
      next_spawn_delay (game_logic r d g) = next_spawn_delay (spawn_pedestrians r d g) \<and>
      pedestrians (game_logic r d g) =
        filter (\<lambda>p. \<not> gone g p) (map (step_ped g) (pedestrians (spawn_pedestrians r d g)))"
    if "\<not> game_over g"
    using game_logic_running [OF that, of r d] by simp
  from A B C D E game_logic_over [of g r d] show ?thesis by blast
qed

theorem spawn_tick_witness:
  "next_spawn_delay (fresh_game\<lparr>spawn_timer := 249\<rparr>) \<le> spawn_timer (fresh_game\<lparr>spawn_timer := 249\<rparr>) + 1 \<and>
   valid_row_draw 1 \<and> valid_delay_draw 321 \<and>
   spawn_pedestrians 1 321 (fresh_game\<lparr>spawn_timer := 249\<rparr>) =
     fresh_game\<lparr>pedestrians := [walker (- 20) 1 {}], spawn_timer := 0, next_spawn_delay := 321\<rparr> \<and>
   rect_right (p_rect (walker (- 20) 1 {})) = 0 \<and>
   rect_y (p_rect (walker (- 20) 1 {})) = 317 \<and>
   spawn_timer fresh_game + 1 < next_spawn_delay fresh_game \<and>
   spawn_pedestrians 1 321 fresh_game = fresh_game\<lparr>spawn_timer := 1\<rparr> \<and>
   pedestrians (game_logic 1 321 (fresh_game\<lparr>spawn_timer := 249\<rparr>)) = [walker (- 19) 1 {}] \<and>
   game_over lost_game \<and> game_logic 1 321 lost_game = lost_game"
proof -
  let ?g = "fresh_game\<lparr>spawn_timer := 249\<rparr>"
  have h1: "next_spawn_delay ?g \<le> spawn_timer ?g + 1" by (simp add: fresh_game_simps)
  have h2: "valid_row_draw 1" by (simp add: valid_row_draw_def)
  have h3: "valid_delay_draw 321"
    by (simp add: valid_delay_draw_def PEDESTRIAN_SPAWN_RATE_MIN_def PEDESTRIAN_SPAWN_RATE_MAX_def)
  have h4: "spawn_timer fresh_game + 1 < next_spawn_delay fresh_game" by (simp add: fresh_game_simps)
  have h5: "\<not> game_over ?g" by (simp add: fresh_game_simps)
  have h6: "game_over lost_game" by (simp add: lost_game_def)
  have cp: "create_pedestrian 1 = walker (- 20) 1 {}"
    using h2 by (rule create_pedestrian_concrete)
  have st: "step_ped ?g (walker (- 20) 1 {}) = walker (- 19) 1 {}"
    by (simp add: step_ped_concrete check_columns_concrete rect_centerx_def walker_def)
  have ng: "\<not> gone ?g (walker (- 19) 1 {})"
    by (simp add: gone_def off_screen_def rect_left_def walker_simps SCREEN_WIDTH_def
          in_uncovered_zone_concrete Let_def rect_centerx_def)
  have eg: "rect_right (p_rect (walker (- 20) 1 {})) = 0" "rect_y (p_rect (walker (- 20) 1 {})) = 317"
    by (simp_all add: walker_def rect_right_def)
  show ?thesis
    using spawn_tick [of ?g 1 321] spawn_tick [of fresh_game 1 321] spawn_tick [of lost_game 1 321]
      h1 h2 h3 h4 h5 h6 eg
    by (simp add: cp st ng fresh_game_simps)
qed

section \<open>Credited slots\<close>

text \<open>
  Claim C6. In every state the main loop reaches from the initial state, every
  pedestrian's set of credited slots holds only slots of its own row and the two
  columns, is finite and has at most 2 elements. A pedestrian is created with the empty
  set, a pass of the loop body never takes a slot out of the set and keeps the bound,
  and the score a pass adds is the number of slots the pass adds to the set, plus the
  bonus of 5 when the pedestrian leaves the screen: a slot that is in the set is not
  counted again. The set is a set, so it holds no slot twice.
\<close>

theorem credited_slots_bounded:
  "list_all (\<lambda>p. credits_ok p \<and> finite (scored_at_indices p) \<and> card (scored_at_indices p) \<le> 2)
     (pedestrians (main_loop frames (initial_game d0 d1))) \<and>
   scored_at_indices (create_pedestrian r) = {} \<and>
   scored_at_indices p \<subseteq> scored_at_indices (step_ped g p) \<and>
   (credits_ok p \<longrightarrow>
      credits_ok (step_ped g p) \<and> finite (scored_at_indices (step_ped g p)) \<and>
      card (scored_at_indices (step_ped g p)) \<le> 2) \<and>
   score (fst (snd (process_pedestrian i p g rm))) =
     score g + int (card (scored_at_indices (step_ped g p) - scored_at_indices p)) +
     (if \<not> in_uncovered_zone g (step_ped g p) \<and> off_screen (step_ped g p) then 5 else 0)"
proof -
  have "list_all credits_ok (pedestrians (main_loop frames (initial_game d0 d1)))"
    by (rule main_loop_credits)
  then have A: "list_all (\<lambda>p. credits_ok p \<and> finite (scored_at_indices p) \<and> card (scored_at_indices p) \<le> 2)
     (pedestrians (main_loop frames (initial_game d0 d1)))"
    by (simp add: list_all_iff credits_ok_card)
  have B: "scored_at_indices (create_pedestrian r) = {}"
    by (simp add: create_pedestrian_def Let_def)
  have C: "scored_at_indices p \<subseteq> scored_at_indices (step_ped g p)"
    unfolding step_ped_scored [of g p] by (rule check_columns_mono)
  have D: "credits_ok (step_ped g p) \<and> finite (scored_at_indices (step_ped g p)) \<and>
      card (scored_at_indices (step_ped g p)) \<le> 2" if "credits_ok p"
    using step_ped_credits_ok [OF that, of g] credits_ok_card [of "step_ped g p"] by simp
  let ?cc = "check_columns (py_enumerate MANHOLE_CENTERS_X) (p_row p)
               (rect_centerx (p_rect (step_ped g p))) (scored_at_indices p) g"
  have fell: "fst (snd ?cc) = in_uncovered_zone g (step_ped g p)"
    by (simp add: check_columns_fell in_uncovered_zone_def)
  have sc: "score (snd (snd ?cc)) = score g + int (card (fst ?cc - scored_at_indices p))"
    using check_columns_credit [of "p_row p" "rect_centerx (p_rect (step_ped g p))" "scored_at_indices p" g]
    by simp
  have E: "score (fst (snd (process_pedestrian i p g rm))) =
     score g + int (card (scored_at_indices (step_ped g p) - scored_at_indices p)) +
     (if \<not> in_uncovered_zone g (step_ped g p) \<and> off_screen (step_ped g p) then 5 else 0)"
    unfolding process_pedestrian_parts Let_def step_ped_scored [of g p]
    using fell sc by simp
  from A B C D E show ?thesis by blast
qed

theorem credited_slots_bounded_witness:
  "credits_ok (walker 229 0 {}) \<and>
   credits_ok (step_ped (street_game [walker 229 0 {}]) (walker 229 0 {})) \<and>
   scored_at_indices (step_ped (street_game [walker 229 0 {}]) (walker 229 0 {})) = {(0, 0)} \<and>
   card (scored_at_indices (step_ped (street_game [walker 229 0 {}]) (walker 229 0 {}))) \<le> 2 \<and>
   score (fst (snd (process_pedestrian 0 (walker 229 0 {}) (street_game [walker 229 0 {}]) []))) = 1 \<and>
   score (fst (snd (process_pedestrian 0 (walker 230 0 {(0, 0)}) (street_game [walker 230 0 {(0, 0)}]) []))) = 0 \<and>
   list_all (\<lambda>p. credits_ok p \<and> finite (scored_at_indices p) \<and> card (scored_at_indices p) \<le> 2)
     (pedestrians (main_loop [([(KEYDOWN K_d, 0)], 0, 300), ([], 1, 300)] (initial_game 300 250)))"
proof -
  let ?p = "walker 229 0 {}" and ?g = "street_game [walker 229 0 {}]"
  let ?p' = "walker 230 0 {(0, 0)}" and ?g' = "street_game [walker 230 0 {(0, 0)}]"
  have h: "credits_ok ?p" by (simp add: credits_ok_def walker_simps)
  have st: "step_ped ?g ?p = walker 231 0 {(0, 0)}"
    by (simp add: step_ped_walker check_columns_concrete street_game_simps) (simp add: walker_def)
  have st': "step_ped ?g' ?p' = walker 232 0 {(0, 0)}"
    by (simp add: step_ped_walker check_columns_concrete street_game_simps) (simp add: walker_def)
  have z: "\<not> off_screen (walker 231 0 {(0, 0)})" "\<not> off_screen (walker 232 0 {(0, 0)})"
    by (simp_all add: off_screen_def rect_left_def walker_simps SCREEN_WIDTH_def)
  show ?thesis
    using credited_slots_bounded [of "[([(KEYDOWN K_d, 0)], 0, 300), ([], 1, 300)]" 300 250 0 ?p ?g 0 "[]"]
      credited_slots_bounded [of "[]" 300 250 0 ?p' ?g' 0 "[]"] h
    by (simp add: st st' z walker_simps street_game_simps)
qed

end
